theory Spec2Isabelle
  imports Complex_Main "HOL-Library.Word" "HOL-Library.List_Lexorder" "HOL-Library.Char_ord"
begin

section \<open>Errors raised by the notebook code\<close>

text \<open>
  The notebooks are Python. Every exception that the modelled cells can raise is a value
  of \<open>py_error\<close>; a computation returns \<open>py_error + 'a\<close> with \<open>Inl\<close> for the raise.
  \<open>InvalidRangeError\<close> is the error named by the specification for bad partition
  parameters; no code path of the notebooks constructs it.
\<close>

datatype py_error = ZeroDivisionError | OverflowError | IndexError | InvalidRangeError

section \<open>Python \<open>datetime\<close> arithmetic used by the time-slot cell\<close>

text \<open>
  A \<open>datetime.datetime\<close> is modelled by the number of microseconds elapsed since the
  midnight that starts proleptic Gregorian ordinal day 0 (so ordinal day 1, 0001-01-01,
  starts at \<open>US_PER_DAY\<close>); a \<open>datetime.timedelta\<close> by its signed number of
  microseconds; a \<open>datetime.date\<close> by its proleptic Gregorian ordinal. Python keeps
  all three as exact integers, so nothing is rounded except where the code below says so.
\<close>

type_synonym datetime = int
type_synonym timedelta = int
type_synonym date = int

definition US_PER_DAY :: int where
  "US_PER_DAY = 86400000000"

definition MAXORDINAL :: int where
  "MAXORDINAL = 3652059"

definition MAX_DELTA_DAYS :: int where
  "MAX_DELTA_DAYS = 999999999"

definition valid_datetime :: "datetime \<Rightarrow> bool" where
  "valid_datetime t \<longleftrightarrow> US_PER_DAY \<le> t \<and> t < (MAXORDINAL + 1) * US_PER_DAY"

definition valid_timedelta :: "timedelta \<Rightarrow> bool" where
  "valid_timedelta d \<longleftrightarrow>
     - MAX_DELTA_DAYS * US_PER_DAY \<le> d \<and> d < (MAX_DELTA_DAYS + 1) * US_PER_DAY"

text \<open>The \<open>timedelta\<close> constructor: more than 999999999 days either way is an OverflowError.\<close>

definition mk_timedelta :: "int \<Rightarrow> py_error + timedelta" where
  "mk_timedelta us = (if valid_timedelta us then Inr us else Inl OverflowError)"

text \<open>\<open>end - start\<close> on two datetimes.\<close>

definition dt_sub :: "datetime \<Rightarrow> datetime \<Rightarrow> py_error + timedelta" where
  "dt_sub a b = mk_timedelta (a - b)"

text \<open>
  \<open>_divide_and_round\<close> of the standard library: the quotient rounded to the nearest
  integer, ties to the even one. \<open>div\<close> and \<open>mod\<close> on \<open>int\<close> are floor division
  and the remainder with the divisor's sign, as Python's \<open>divmod\<close>.
\<close>

definition divide_and_round :: "int \<Rightarrow> int \<Rightarrow> int" where
  "divide_and_round a b =
     (let q = a div b; r = 2 * (a mod b);
          greater_than_half = (if 0 < b then b < r else r < b)
      in if greater_than_half \<or> (r = b \<and> q mod 2 = 1) then q + 1 else q)"

text \<open>\<open>timedelta / int\<close>.\<close>

definition td_truediv :: "timedelta \<Rightarrow> int \<Rightarrow> py_error + timedelta" where
  "td_truediv d n =
     (if n = 0 then Inl ZeroDivisionError else mk_timedelta (divide_and_round d n))"

text \<open>\<open>int * timedelta\<close>.\<close>

definition td_rmul :: "int \<Rightarrow> timedelta \<Rightarrow> py_error + timedelta" where
  "td_rmul i d = mk_timedelta (i * d)"

text \<open>\<open>datetime + timedelta\<close>: a result outside years 1 to 9999 is an OverflowError.\<close>

definition dt_add :: "datetime \<Rightarrow> timedelta \<Rightarrow> py_error + datetime" where
  "dt_add t d = (if valid_datetime (t + d) then Inr (t + d) else Inl OverflowError)"

text \<open>\<open>datetime.date()\<close>: the calendar day, the time of day dropped.\<close>

definition date_of :: "datetime \<Rightarrow> date" where
  "date_of t = t div US_PER_DAY"

subsection \<open>Calendar: ordinals, year-month-day, ISO text\<close>

definition is_leap :: "int \<Rightarrow> bool" where
  "is_leap year \<longleftrightarrow> year mod 4 = 0 \<and> (year mod 100 \<noteq> 0 \<or> year mod 400 = 0)"

definition days_before_year :: "int \<Rightarrow> int" where
  "days_before_year year =
     (let y = year - 1 in y * 365 + y div 4 - y div 100 + y div 400)"

definition DAYS_IN_MONTH :: "int list" where
  "DAYS_IN_MONTH = [-1, 31, 28, 31, 30, 31, 30, 31, 31, 30, 31, 30, 31]"

definition DAYS_BEFORE_MONTH :: "int list" where
  "DAYS_BEFORE_MONTH = [-1, 0, 31, 59, 90, 120, 151, 181, 212, 243, 273, 304, 334]"

definition days_before_month :: "int \<Rightarrow> int \<Rightarrow> int" where
  "days_before_month year month =
     DAYS_BEFORE_MONTH ! nat month + (if 2 < month \<and> is_leap year then 1 else 0)"

definition days_in_month :: "int \<Rightarrow> int \<Rightarrow> int" where
  "days_in_month year month =
     (if month = 2 \<and> is_leap year then 29 else DAYS_IN_MONTH ! nat month)"

text \<open>The triples that the \<open>date\<close> constructor accepts, but for the upper bound on the year.\<close>

definition valid_ymd :: "int \<times> int \<times> int \<Rightarrow> bool" where
  "valid_ymd ymd \<longleftrightarrow> (case ymd of (y, m, d) \<Rightarrow>
     1 \<le> y \<and> 1 \<le> m \<and> m \<le> 12 \<and> 1 \<le> d \<and> d \<le> days_in_month y m)"

definition ymd2ord :: "int \<Rightarrow> int \<Rightarrow> int \<Rightarrow> date" where
  "ymd2ord year month day = days_before_year year + days_before_month year month + day"

text \<open>\<open>datetime.datetime(year, month, day)\<close> for a day that exists: midnight of that day.\<close>

definition datetime_ymd :: "int \<Rightarrow> int \<Rightarrow> int \<Rightarrow> datetime" where
  "datetime_ymd year month day = ymd2ord year month day * US_PER_DAY"

definition DI400Y :: int where "DI400Y = 146097"
definition DI100Y :: int where "DI100Y = 36524"
definition DI4Y :: int where "DI4Y = 1461"

text \<open>
  \<open>_ord2ymd\<close> of the standard library, in two steps: the year from the ordinal, by the
  cycles of 400, 100, 4 and 1 years, and then \<open>month_day\<close>, the month and the day from
  the day of the year (an estimate of the month, too large by one at most, then the
  correction).
\<close>

definition month_day :: "bool \<Rightarrow> int \<Rightarrow> int \<times> int" where
  "month_day leapyear n =
     (let month = (n + 50) div 32;
          preceding = DAYS_BEFORE_MONTH ! nat month
                      + (if 2 < month \<and> leapyear then 1 else 0)
      in if n < preceding
         then let month = month - 1;
                  preceding = preceding
                    - (DAYS_IN_MONTH ! nat month
                       + (if month = 2 \<and> leapyear then 1 else 0))
              in (month, n - preceding + 1)
         else (month, n - preceding + 1))"

definition ord2ymd :: "date \<Rightarrow> int \<times> int \<times> int" where
  "ord2ymd ordinal =
     (let n = ordinal - 1;
          n400 = n div DI400Y; n = n mod DI400Y;
          year = n400 * 400 + 1;
          n100 = n div DI100Y; n = n mod DI100Y;
          n4 = n div DI4Y; n = n mod DI4Y;
          n1 = n div 365; n = n mod 365;
          year = year + n100 * 100 + n4 * 4 + n1
      in if n1 = 4 \<or> n100 = 4 then (year - 1, 12, 31)
         else let leapyear = (n1 = 3 \<and> (n4 \<noteq> 24 \<or> n100 = 3))
              in (year, month_day leapyear n))"

definition digit :: "int \<Rightarrow> char" where
  "digit k = ''0123456789'' ! nat k"

text \<open>
  \<open>"%02d"\<close> for a number from 0 to 99 and \<open>"%04d"\<close> for one from 0 to 9999 (its
  hundreds and its last two digits), which covers the months, days and years of a date.
\<close>

definition fmt02 :: "int \<Rightarrow> string" where
  "fmt02 k = [digit (k div 10), digit (k mod 10)]"

definition fmt04 :: "int \<Rightarrow> string" where
  "fmt04 y = fmt02 (y div 100) @ fmt02 (y mod 100)"

text \<open>\<open>"%04d-%02d-%02d" % (year, month, day)\<close>\<close>

definition iso_text :: "int \<times> int \<times> int \<Rightarrow> string" where
  "iso_text ymd = (case ymd of (y, m, d) \<Rightarrow> fmt04 y @ ''-'' @ fmt02 m @ ''-'' @ fmt02 d)"

text \<open>\<open>date.isoformat()\<close>: \<open>YYYY-MM-DD\<close>.\<close>

definition isoformat :: "date \<Rightarrow> string" where
  "isoformat d = iso_text (ord2ymd d)"

section \<open>The time-slot cell\<close>

text \<open>
  Both notebooks split a period into time slots with the same four lines:
  \<^verbatim>\<open>
  tdelta = (end - start) / n_chunks
  edges = [(start + i * tdelta).date().isoformat() for i in range(n_chunks)]
  slots = [(edges[i], edges[i + 1]) for i in range(len(edges) - 1)]
  \<close>
  with \<open>start, end, n_chunks\<close> = 2022-09-01, 2023-04-30, 17 in the ice-monitoring
  notebook and 2019-01-01, 2019-12-31, 13 in the other one. The model takes the three
  variables as arguments.
\<close>

text \<open>\<open>range(n)\<close>: empty for \<open>n \<le> 0\<close>.\<close>

definition py_range :: "int \<Rightarrow> int list" where
  "py_range n = map int [0..<nat n]"

text \<open>
  A list comprehension whose element expression may raise: elements are computed in
  order and the first raise ends the comprehension.
\<close>

fun comprehension :: "('a \<Rightarrow> py_error + 'b) \<Rightarrow> 'a list \<Rightarrow> py_error + 'b list" where
  "comprehension f [] = Inr []"
| "comprehension f (x # xs) =
     (case f x of
        Inl e \<Rightarrow> Inl e
      | Inr y \<Rightarrow> (case comprehension f xs of Inl e \<Rightarrow> Inl e | Inr ys \<Rightarrow> Inr (y # ys)))"

text \<open>\<open>(start + i * tdelta).date()\<close>\<close>

definition edge_date :: "datetime \<Rightarrow> timedelta \<Rightarrow> int \<Rightarrow> py_error + date" where
  "edge_date start tdelta i =
     (case td_rmul i tdelta of
        Inl e \<Rightarrow> Inl e
      | Inr d \<Rightarrow> (case dt_add start d of Inl e \<Rightarrow> Inl e | Inr t \<Rightarrow> Inr (date_of t)))"

text \<open>\<open>(start + i * tdelta).date().isoformat()\<close>\<close>

definition edge :: "datetime \<Rightarrow> timedelta \<Rightarrow> int \<Rightarrow> py_error + string" where
  "edge start tdelta i =
     (case edge_date start tdelta i of Inl e \<Rightarrow> Inl e | Inr d \<Rightarrow> Inr (isoformat d))"

definition edges :: "datetime \<Rightarrow> timedelta \<Rightarrow> int \<Rightarrow> py_error + string list" where
  "edges start tdelta n_chunks = comprehension (edge start tdelta) (py_range n_chunks)"

text \<open>
  \<open>[(edges[i], edges[i + 1]) for i in range(len(edges) - 1)]\<close>: every index read is
  below \<open>len(edges)\<close>, and \<open>range(-1)\<close> is empty as \<open>[0..<0 - 1]\<close> is.
\<close>

definition consecutive :: "'a list \<Rightarrow> ('a \<times> 'a) list" where
  "consecutive es = map (\<lambda>i. (es ! i, es ! (i + 1))) [0..<length es - 1]"

definition slots :: "datetime \<Rightarrow> datetime \<Rightarrow> int \<Rightarrow> py_error + (string \<times> string) list" where
  "slots start end_dt n_chunks =
     (case dt_sub end_dt start of
        Inl e \<Rightarrow> Inl e
      | Inr period \<Rightarrow>
         (case td_truediv period n_chunks of
            Inl e \<Rightarrow> Inl e
          | Inr tdelta \<Rightarrow>
             (case edges start tdelta n_chunks of
                Inl e \<Rightarrow> Inl e
              | Inr es \<Rightarrow> Inr (consecutive es))))"

subsection \<open>The slots as calendar dates\<close>

text \<open>
  The same cell with the last step of the element expression, \<open>.isoformat()\<close>, left
  out: the edges and the slots as dates rather than as their ISO text. It is used to say
  in which order the slots come; \<open>slots_iso\<close> below shows that \<open>slots\<close> is its
  rendering.
\<close>

definition edge_dates :: "datetime \<Rightarrow> timedelta \<Rightarrow> int \<Rightarrow> py_error + date list" where
  "edge_dates start tdelta n_chunks = comprehension (edge_date start tdelta) (py_range n_chunks)"

definition slot_dates :: "datetime \<Rightarrow> datetime \<Rightarrow> int \<Rightarrow> py_error + (date \<times> date) list" where
  "slot_dates start end_dt n_chunks =
     (case dt_sub end_dt start of
        Inl e \<Rightarrow> Inl e
      | Inr period \<Rightarrow>
         (case td_truediv period n_chunks of
            Inl e \<Rightarrow> Inl e
          | Inr tdelta \<Rightarrow>
             (case edge_dates start tdelta n_chunks of
                Inl e \<Rightarrow> Inl e
              | Inr ds \<Rightarrow> Inr (consecutive ds))))"

definition iso_slot :: "date \<times> date \<Rightarrow> string \<times> string" where
  "iso_slot w = (isoformat (fst w), isoformat (snd w))"

text \<open>The edges, when none of them raises.\<close>

definition edge_list :: "datetime \<Rightarrow> datetime \<Rightarrow> int \<Rightarrow> date list" where
  "edge_list start end_dt n =
     map (\<lambda>i. date_of (start + i * divide_and_round (end_dt - start) n)) (py_range n)"

section \<open>The ice-mask rasters and the area reduction\<close>

text \<open>
  A downloaded mask is a NumPy array of shape \<open>(height, width, bands)\<close>. The mask
  evalscript declares \<open>bands: 5, sampleType: "UINT8"\<close> and returns
  \<open>[r, g, b, dataMask, iceMask]\<close> per pixel with \<open>iceMask\<close> 0 or 1, so a sample is
  an unsigned byte and band index 4 is the ice mask. The shape is kept apart from the
  samples, as an array may have an empty axis and still have five bands.
\<close>

record raster =
  height :: nat
  width :: nat
  bands :: nat
  sample :: "nat \<Rightarrow> nat \<Rightarrow> nat \<Rightarrow> 8 word"

text \<open>
  \<open>image[:, :, b]\<close> for a non-negative \<open>b\<close>: an IndexError unless \<open>b\<close> is below the
  size of the last axis, else the two-dimensional array of band \<open>b\<close>, row by row.
\<close>

definition band_slice :: "raster \<Rightarrow> nat \<Rightarrow> py_error + 8 word list list" where
  "band_slice img b =
     (if b < bands img
      then Inr (map (\<lambda>r. map (\<lambda>c. sample img r c b) [0..<width img]) [0..<height img])
      else Inl IndexError)"

text \<open>
  \<open>np.sum\<close> of a two-dimensional byte array: the sum of all its samples. NumPy adds bytes
  in a 64-bit accumulator, which no mask that fits in memory can fill (more than
  \<open>7 * 10^16\<close> samples of 255), so the sum is the exact natural number.
\<close>

definition np_sum :: "8 word list list \<Rightarrow> nat" where
  "np_sum a = sum_list (map unat (concat a))"

text \<open>
  \<^verbatim>\<open>
  def count_ice_pixels(image):
      ice_mask = image[:, :, 4]
      ice_pixel_count = np.sum(ice_mask)
      return ice_pixel_count
  \<close>
\<close>

definition count_ice_pixels :: "raster \<Rightarrow> py_error + nat" where
  "count_ice_pixels img =
     (case band_slice img 4 of
        Inl e \<Rightarrow> Inl e
      | Inr ice_mask \<Rightarrow> let ice_pixel_count = np_sum ice_mask in Inr ice_pixel_count)"

text \<open>
  \<^verbatim>\<open>
  resolution_s1 = 20 * 20  # meters
  area_covered_ice = []
  for idx, image in enumerate(mask_data):
      ice_pixels_count = count_ice_pixels(image)
      area_covered_ice.append(ice_pixels_count * resolution_s1 / 1000000)
  \<close>
  \<open>ice_area\<close> is the body of the loop for one image. The quotient is a Python float; it
  is modelled by the rational number that the one division rounds, so two areas are the
  same float whenever they are the same rational.
\<close>

definition resolution_s1 :: nat where
  "resolution_s1 = 20 * 20"

definition ice_area :: "raster \<Rightarrow> py_error + rat" where
  "ice_area img =
     (case count_ice_pixels img of
        Inl e \<Rightarrow> Inl e
      | Inr ice_pixels_count \<Rightarrow> Inr (of_nat (ice_pixels_count * resolution_s1) / 1000000))"

fun area_loop :: "raster list \<Rightarrow> rat list \<Rightarrow> py_error + rat list" where
  "area_loop [] area_covered_ice = Inr area_covered_ice"
| "area_loop (img # rest) area_covered_ice =
     (case ice_area img of
        Inl e \<Rightarrow> Inl e
      | Inr a \<Rightarrow> area_loop rest (area_covered_ice @ [a]))"

definition area_covered_ice :: "raster list \<Rightarrow> py_error + rat list" where
  "area_covered_ice mask_data = area_loop mask_data []"

subsection \<open>The reduction in the specification's words\<close>

text \<open>
  The specification describes the reduction as a count of the pixels of the classification
  band that equal the sentinel value 1. These definitions follow those words, to be
  compared with \<open>count_ice_pixels\<close>.
\<close>

definition band_values :: "raster \<Rightarrow> nat \<Rightarrow> 8 word list" where
  "band_values img b =
     concat (map (\<lambda>r. map (\<lambda>c. sample img r c b) [0..<width img]) [0..<height img])"

definition sentinel :: "8 word" where
  "sentinel = 1"

definition sentinel_pixels :: "raster \<Rightarrow> nat" where
  "sentinel_pixels img = length (filter (\<lambda>v. v = sentinel) (band_values img 4))"

text \<open>A mask as the evalscript writes it: every sample of band 4 is 0 or 1.\<close>

definition binary_mask :: "raster \<Rightarrow> bool" where
  "binary_mask img \<longleftrightarrow> list_all (\<lambda>v. v = 0 \<or> v = sentinel) (band_values img 4)"

subsection \<open>Example rasters\<close>

text \<open>One pixel of five bands, every sample 2.\<close>

definition bright_pixel :: raster where
  "bright_pixel = \<lparr>height = 1, width = 1, bands = 5, sample = (\<lambda>r c b. 2)\<rparr>"

text \<open>The same pixel with every band but the fifth changed.\<close>

definition repainted_pixel :: raster where
  "repainted_pixel =
     \<lparr>height = 1, width = 1, bands = 5, sample = (\<lambda>r c b. if b = 4 then 2 else 9)\<rparr>"

text \<open>One pixel of three bands, as a colour image has.\<close>

definition rgb_pixel :: raster where
  "rgb_pixel = \<lparr>height = 1, width = 1, bands = 3, sample = (\<lambda>r c b. 1)\<rparr>"

text \<open>
  The synthetic grids of the end-to-end scenario: one row of 1600 five-band pixels, the
  first \<open>k\<close> of them marked with the sentinel in band 4 and every other sample 0.
\<close>

definition synthetic_grid :: "nat \<Rightarrow> raster" where
  "synthetic_grid k =
     \<lparr>height = 1, width = 1600, bands = 5,
      sample = (\<lambda>r c b. if b = 4 \<and> c < k then sentinel else 0)\<rparr>"

definition synthetic_mask_data :: "raster list" where
  "synthetic_mask_data = map (\<lambda>i. synthetic_grid (i * 100)) [0..<16]"

text \<open>
  Sixteen grids in which grid \<open>i\<close> again has \<open>i * 100\<close> pixels equal to the sentinel,
  but the one pixel of the first grid, not a sentinel pixel, holds 2 rather than 0.
\<close>

definition nonbinary_mask_data :: "raster list" where
  "nonbinary_mask_data = bright_pixel # tl synthetic_mask_data"

section \<open>Properties of the calendar\<close>

subsection \<open>ISO text keeps the order of year, month, day\<close>

lemma digit_cases:
  assumes "0 \<le> k" "k \<le> 9"
  shows "k = 0 \<or> k = 1 \<or> k = 2 \<or> k = 3 \<or> k = 4 \<or> k = 5 \<or> k = 6 \<or> k = 7 \<or> k = 8 \<or> k = (9::int)"
  using assms by arith

lemma of_char_digit:
  assumes "0 \<le> k" "k \<le> 9"
  shows "of_char (digit k) = (48 + nat k :: nat)"
  using digit_cases [OF assms] by (auto simp: digit_def)

lemma digit_less_iff:
  assumes "0 \<le> a" "a \<le> 9" "0 \<le> b" "b \<le> 9"
  shows "digit a < digit b \<longleftrightarrow> a < b"
  using assms by (auto simp: less_char_def of_char_digit)

lemma digit_eq_iff:
  assumes "0 \<le> a" "a \<le> 9" "0 \<le> b" "b \<le> 9"
  shows "digit a = digit b \<longleftrightarrow> a = b"
proof
  assume "digit a = digit b"
  then have "(of_char (digit a) :: nat) = of_char (digit b)" by simp
  then show "a = b" using assms by (simp add: of_char_digit)
qed simp

lemma less_div_mod_10:
  fixes a b :: int
  assumes "a < b"
  shows "a div 10 < b div 10 \<or> (a div 10 = b div 10 \<and> a mod 10 < b mod 10)"
proof -
  have "10 * (a div 10) + a mod 10 < 10 * (b div 10) + b mod 10" using assms by simp
  moreover have "0 \<le> a mod 10" "a mod 10 \<le> 9" "0 \<le> b mod 10" "b mod 10 \<le> 9" by simp_all
  ultimately show ?thesis by linarith
qed

lemma fmt02_less:
  assumes "0 \<le> m" "m < m'" "m' \<le> 99"
  shows "fmt02 m @ s < fmt02 m' @ t"
proof -
  have d: "0 \<le> m div 10" "m div 10 \<le> 9" "0 \<le> m' div 10" "m' div 10 \<le> 9"
    using assms by simp_all
  have e: "0 \<le> m mod 10" "m mod 10 \<le> 9" "0 \<le> m' mod 10" "m' mod 10 \<le> 9" by simp_all
  show ?thesis
    using less_div_mod_10 [OF assms(2)] d e
    by (auto simp: fmt02_def Cons_less_Cons digit_less_iff digit_eq_iff)
qed

lemma length_fmt02: "length (fmt02 k) = 2"
  by (simp add: fmt02_def)

lemma append_less_same:
  fixes u v :: "'a::linorder list"
  shows "length u = length v \<Longrightarrow> u @ s < v @ t \<longleftrightarrow> u < v \<or> (u = v \<and> s < t)"
proof (induction u arbitrary: v)
  case Nil
  then show ?case by simp
next
  case (Cons a u)
  then show ?case by (cases v) (auto simp: Cons_less_Cons)
qed

lemma less_div_mod_100:
  fixes a b :: int
  assumes "a < b"
  shows "a div 100 < b div 100 \<or> (a div 100 = b div 100 \<and> a mod 100 < b mod 100)"
proof -
  have "100 * (a div 100) + a mod 100 < 100 * (b div 100) + b mod 100" using assms by simp
  moreover have "0 \<le> a mod 100" "a mod 100 \<le> 99" "0 \<le> b mod 100" "b mod 100 \<le> 99"
    by simp_all
  ultimately show ?thesis by linarith
qed

lemma fmt04_less:
  assumes "0 \<le> y" "y < y'" "y' \<le> 9999"
  shows "fmt04 y @ s < fmt04 y' @ t"
proof -
  have d: "0 \<le> y div 100" "y' div 100 \<le> 99" using assms by simp_all
  have e: "0 \<le> y mod 100" "y' mod 100 \<le> 99" by simp_all
  from less_div_mod_100 [OF assms(2)] show ?thesis
  proof
    assume "y div 100 < y' div 100"
    then have "fmt02 (y div 100) @ (fmt02 (y mod 100) @ s)
        < fmt02 (y' div 100) @ (fmt02 (y' mod 100) @ t)"
      using d by (intro fmt02_less) simp_all
    then show ?thesis by (simp add: fmt04_def)
  next
    assume h: "y div 100 = y' div 100 \<and> y mod 100 < y' mod 100"
    then have "fmt02 (y mod 100) @ s < fmt02 (y' mod 100) @ t"
      using e by (intro fmt02_less) simp_all
    then show ?thesis using h by (simp add: fmt04_def append_less_same length_fmt02)
  qed
qed

lemma iso_text_less:
  assumes "0 \<le> y" "y' \<le> 9999" "0 \<le> m" "m' \<le> 99" "0 \<le> d" "d' \<le> 99"
    and "y < y' \<or> (y = y' \<and> (m < m' \<or> (m = m' \<and> d < d')))"
  shows "iso_text (y, m, d) < iso_text (y', m', d')"
proof -
  consider "y < y'" | "y = y'" "m < m'" | "y = y'" "m = m'" "d < d'" using assms(7) by blast
  then show ?thesis
  proof cases
    case 1
    then show ?thesis unfolding iso_text_def prod.case using assms by (intro fmt04_less) simp_all
  next
    case 2
    have "fmt02 m @ (''-'' @ fmt02 d) < fmt02 m' @ (''-'' @ fmt02 d')"
      using 2 assms by (intro fmt02_less) simp_all
    then show ?thesis
      using 2 by (simp add: iso_text_def append_less_same fmt04_def length_fmt02 Cons_less_Cons)
  next
    case 3
    have "fmt02 d @ [] < fmt02 d' @ []"
      using 3 assms by (intro fmt02_less) simp_all
    then show ?thesis
      using 3 by (simp add: iso_text_def append_less_same fmt04_def length_fmt02 Cons_less_Cons)
  qed
qed

subsection \<open>Ordinals and year, month, day\<close>

lemma month_cases:
  assumes "1 \<le> m" "m \<le> 12"
  shows "m = 1 \<or> m = 2 \<or> m = 3 \<or> m = 4 \<or> m = 5 \<or> m = 6 \<or> m = 7 \<or> m = 8 \<or> m = 9
    \<or> m = 10 \<or> m = 11 \<or> m = (12::int)"
  using assms by arith

lemma month_day_spec:
  assumes n: "0 \<le> n" "n \<le> 364" and md: "month_day leapyear n = (m, d)"
  shows "1 \<le> m \<and> m \<le> 12 \<and> 1 \<le> d
    \<and> d \<le> (if m = 2 \<and> leapyear then 29 else DAYS_IN_MONTH ! nat m)
    \<and> DAYS_BEFORE_MONTH ! nat m + (if 2 < m \<and> leapyear then 1 else 0) + d = n + 1"
proof -
  define month where "month = (n + 50) div 32"
  have "1 \<le> month" "month \<le> 12" using n by (simp_all add: month_def)
  then have "month = 1 \<or> month = 2 \<or> month = 3 \<or> month = 4 \<or> month = 5 \<or> month = 6
    \<or> month = 7 \<or> month = 8 \<or> month = 9 \<or> month = 10 \<or> month = 11 \<or> month = 12"
    by (rule month_cases)
  moreover have "32 * month \<le> n + 50" "n + 50 < 32 * month + 32"
    unfolding month_def by presburger+
  ultimately show ?thesis
    using n md unfolding month_day_def Let_def month_def [symmetric]
    by (elim disjE) (auto simp: DAYS_BEFORE_MONTH_def DAYS_IN_MONTH_def split: if_splits)
qed

lemma div_pred:
  fixes y k :: int
  assumes "0 < k"
  shows "(y - 1) div k = y div k - (if y mod k = 0 then 1 else 0)"
proof (cases "y mod k = 0")
  case True
  have "y = k * (y div k)" using True by auto
  then have "y - 1 = k * (y div k - 1) + (k - 1)" by (simp add: algebra_simps)
  then have "(y - 1) div k = y div k - 1"
    using assms by (intro int_div_pos_eq [where r = "k - 1"]) simp_all
  then show ?thesis using True by simp
next
  case False
  have "0 \<le> y mod k" "y mod k < k" using assms by simp_all
  then have "0 \<le> y mod k - 1" "y mod k - 1 < k" using False by simp_all
  moreover have "y - 1 = k * (y div k) + (y mod k - 1)" by simp
  ultimately have "(y - 1) div k = y div k"
    by (intro int_div_pos_eq [where r = "y mod k - 1"])
  then show ?thesis using False by simp
qed


lemma mod_100_imp_mod_4: "(y::int) mod 100 = 0 \<Longrightarrow> y mod 4 = 0"
proof -
  assume "y mod 100 = 0"
  then have "100 dvd y" by (simp add: dvd_eq_mod_eq_0)
  moreover have "(4::int) dvd 100" by simp
  ultimately have "4 dvd y" by (rule dvd_trans [rotated])
  then show ?thesis by (simp add: dvd_eq_mod_eq_0)
qed

lemma mod_400_imp_mod_100: "(y::int) mod 400 = 0 \<Longrightarrow> y mod 100 = 0"
proof -
  assume "y mod 400 = 0"
  then have "400 dvd y" by (simp add: dvd_eq_mod_eq_0)
  moreover have "(100::int) dvd 400" by simp
  ultimately have "100 dvd y" by (rule dvd_trans [rotated])
  then show ?thesis by (simp add: dvd_eq_mod_eq_0)
qed

lemma days_before_year_Suc:
  "days_before_year (y + 1) = days_before_year y + 365 + (if is_leap y then 1 else 0)"
proof -
  define a where "a = y div 4"
  define b where "b = y div 100"
  define c where "c = y div 400"
  have d: "(y - 1) div 4 = a - (if y mod 4 = 0 then 1 else 0)"
    "(y - 1) div 100 = b - (if y mod 100 = 0 then 1 else 0)"
    "(y - 1) div 400 = c - (if y mod 400 = 0 then 1 else 0)"
    by (simp_all add: div_pred a_def b_def c_def)
  have e: "days_before_year (y + 1) = y * 365 + a - b + c"
    by (simp add: days_before_year_def a_def b_def c_def)
  have f: "days_before_year y = (y - 1) * 365 + (y - 1) div 4 - (y - 1) div 100 + (y - 1) div 400"
    by (simp add: days_before_year_def Let_def)
  show ?thesis
  proof (cases "y mod 4 = 0")
    case False
    then have "y mod 100 \<noteq> 0" using mod_100_imp_mod_4 [of y] by auto
    moreover from this have "y mod 400 \<noteq> 0" using mod_400_imp_mod_100 [of y] by auto
    ultimately have "y mod 100 \<noteq> 0" "y mod 400 \<noteq> 0" by simp_all
    then show ?thesis using False unfolding e f d is_leap_def by simp
  next
    case True
    show ?thesis
    proof (cases "y mod 100 = 0")
      case False
      then have "y mod 400 \<noteq> 0" using mod_400_imp_mod_100 [of y] by auto
      then show ?thesis using True False unfolding e f d is_leap_def by simp
    next
      case h: True
      show ?thesis using True h unfolding e f d is_leap_def by (cases "y mod 400 = 0") simp_all
    qed
  qed
qed

lemma days_before_year_mono: "y \<le> y' \<Longrightarrow> days_before_year y \<le> days_before_year y'"
proof (induction y' rule: int_ge_induct)
  case base
  then show ?case by simp
next
  case (step i)
  then show ?case by (simp add: days_before_year_Suc)
qed


text \<open>A year written by its place in the cycles of 400, 100, 4 and 1 years.\<close>

lemma cycle_year:
  fixes a c100 c4 c1 :: int
  assumes "0 \<le> c100" "c100 \<le> 3" "0 \<le> c4" "c4 \<le> 24" "0 \<le> c1" "c1 \<le> 3"
  defines "y \<equiv> 400 * a + 100 * c100 + 4 * c4 + c1 + 1"
  shows "days_before_year y = 146097 * a + 36524 * c100 + 1461 * c4 + 365 * c1"
    and "is_leap y \<longleftrightarrow> c1 = 3 \<and> (c4 \<noteq> 24 \<or> c100 = 3)"
proof -
  have d4: "(y - 1) div 4 = 100 * a + 25 * c100 + c4"
    using assms(1-6) by (intro int_div_pos_eq [where r = c1]) (simp_all add: y_def)
  have d100: "(y - 1) div 100 = 4 * a + c100"
    using assms(1-6) by (intro int_div_pos_eq [where r = "4 * c4 + c1"]) (simp_all add: y_def)
  have d400: "(y - 1) div 400 = a"
    using assms(1-6)
    by (intro int_div_pos_eq [where r = "100 * c100 + 4 * c4 + c1"]) (simp_all add: y_def)
  show "days_before_year y = 146097 * a + 36524 * c100 + 1461 * c4 + 365 * c1"
    unfolding days_before_year_def Let_def d4 d100 d400 by (simp add: y_def)
  have m4: "y mod 4 = 0 \<longleftrightarrow> c1 = 3"
  proof (cases "c1 = 3")
    case True
    then have "y = 4 * (100 * a + 25 * c100 + c4 + 1)" by (simp add: y_def)
    then show ?thesis using True by simp
  next
    case False
    have "y mod 4 = c1 + 1"
      using assms(1-6) False
      by (intro int_mod_pos_eq [where q = "100 * a + 25 * c100 + c4"]) (simp_all add: y_def)
    then show ?thesis using False assms(5) by simp
  qed
  have m100: "y mod 100 = 0 \<longleftrightarrow> c1 = 3 \<and> c4 = 24"
  proof (cases "c1 = 3 \<and> c4 = 24")
    case True
    then have "y = 100 * (4 * a + c100 + 1)" by (simp add: y_def)
    then show ?thesis using True by simp
  next
    case False
    then have "4 * c4 + c1 + 1 < 100" using assms(1-6) by linarith
    then have "y mod 100 = 4 * c4 + c1 + 1"
      using assms(1-6)
      by (intro int_mod_pos_eq [where q = "4 * a + c100"]) (simp_all add: y_def)
    then show ?thesis using False assms(3,5) by simp
  qed
  have m400: "y mod 400 = 0 \<longleftrightarrow> c1 = 3 \<and> c4 = 24 \<and> c100 = 3"
  proof (cases "c1 = 3 \<and> c4 = 24 \<and> c100 = 3")
    case True
    then have "y = 400 * (a + 1)" by (simp add: y_def)
    then show ?thesis using True by simp
  next
    case False
    then have "100 * c100 + 4 * c4 + c1 + 1 < 400" using assms(1-6) by linarith
    then have "y mod 400 = 100 * c100 + 4 * c4 + c1 + 1"
      using assms(1-6)
      by (intro int_mod_pos_eq [where q = a]) (simp_all add: y_def)
    then show ?thesis using False assms(1,3,5) by simp
  qed
  show "is_leap y \<longleftrightarrow> c1 = 3 \<and> (c4 \<noteq> 24 \<or> c100 = 3)"
    unfolding is_leap_def m4 m100 m400 by auto
qed


lemma days_before_month_12: "days_before_month y 12 = (if is_leap y then 335 else 334)"
  by (simp add: days_before_month_def DAYS_BEFORE_MONTH_def)

lemma ord2ymd_ymd2ord:
  assumes "1 \<le> ordinal"
  shows "valid_ymd (ord2ymd ordinal) \<and> (case ord2ymd ordinal of (y, m, d) \<Rightarrow> ymd2ord y m d) = ordinal"
proof -
  define n0 where "n0 = ordinal - 1"
  define n400 where "n400 = n0 div 146097"
  define r1 where "r1 = n0 mod 146097"
  define n100 where "n100 = r1 div 36524"
  define r2 where "r2 = r1 mod 36524"
  define n4 where "n4 = r2 div 1461"
  define r3 where "r3 = r2 mod 1461"
  define n1 where "n1 = r3 div 365"
  define r4 where "r4 = r3 mod 365"
  have n0: "0 \<le> n0" "ordinal = n0 + 1" using assms by (simp_all add: n0_def)
  have s1: "n0 = 146097 * n400 + r1" "0 \<le> r1" "r1 < 146097" "0 \<le> n400"
    using n0 by (simp_all add: n400_def r1_def pos_imp_zdiv_nonneg_iff)
  have s2: "r1 = 36524 * n100 + r2" "0 \<le> r2" "r2 < 36524" "0 \<le> n100"
    using s1 by (simp_all add: n100_def r2_def pos_imp_zdiv_nonneg_iff)
  have s3: "r2 = 1461 * n4 + r3" "0 \<le> r3" "r3 < 1461" "0 \<le> n4"
    using s2 by (simp_all add: n4_def r3_def pos_imp_zdiv_nonneg_iff)
  have s4: "r3 = 365 * n1 + r4" "0 \<le> r4" "r4 < 365" "0 \<le> n1"
    using s3 by (simp_all add: n1_def r4_def pos_imp_zdiv_nonneg_iff)
  have b100: "n100 \<le> 4" using s1 s2 by linarith
  have b4: "n4 \<le> 24" using s2 s3 by linarith
  have b1: "n1 \<le> 4" using s3 s4 by linarith
  have unfold: "ord2ymd ordinal =
    (if n1 = 4 \<or> n100 = 4 then (400 * n400 + 100 * n100 + 4 * n4 + n1 + 1 - 1, 12, 31)
     else (400 * n400 + 100 * n100 + 4 * n4 + n1 + 1,
           month_day (n1 = 3 \<and> (n4 \<noteq> 24 \<or> n100 = 3)) r4))"
    by (simp add: ord2ymd_def Let_def DI400Y_def DI100Y_def DI4Y_def n0_def n400_def r1_def
        n100_def r2_def n4_def r3_def n1_def r4_def)
  have fin: ?thesis
    if "ord2ymd ordinal = (y, m, d)" "valid_ymd (y, m, d)" "ymd2ord y m d = n0 + 1" for y m d
    using that n0 by simp
  consider (century) "n100 = 4" | (leapday) "n100 \<le> 3" "n1 = 4" | (regular) "n100 \<le> 3" "n1 \<le> 3"
    using b100 b1 by linarith
  then show ?thesis
  proof cases
    case century
    then have z: "r2 = 0" "n4 = 0" "r3 = 0" "n1 = 0" "r4 = 0"
      using s1 s2 s3 s4 by linarith+
    have res: "ord2ymd ordinal = (400 * n400 + 100 * 3 + 4 * 24 + 3 + 1, 12, 31)"
      using century z by (simp add: unfold)
    have "days_before_year (400 * n400 + 100 * 3 + 4 * 24 + 3 + 1)
        = 146097 * n400 + 36524 * 3 + 1461 * 24 + 365 * 3"
      and "is_leap (400 * n400 + 100 * 3 + 4 * 24 + 3 + 1)"
      using cycle_year [of 3 24 3 n400] by simp_all
    then show ?thesis
      using s1 s2 century z
      by (intro fin [OF res])
        (simp_all add: valid_ymd_def days_in_month_def DAYS_IN_MONTH_def ymd2ord_def
          days_before_month_12)
  next
    case leapday
    then have z: "r4 = 0" using s3 s4 by linarith
    have n4: "n4 \<le> 23" using s2 s3 s4 leapday by linarith
    have res: "ord2ymd ordinal = (400 * n400 + 100 * n100 + 4 * n4 + 3 + 1, 12, 31)"
      using leapday by (simp add: unfold)
    have "days_before_year (400 * n400 + 100 * n100 + 4 * n4 + 3 + 1)
        = 146097 * n400 + 36524 * n100 + 1461 * n4 + 365 * 3"
      and "is_leap (400 * n400 + 100 * n100 + 4 * n4 + 3 + 1)"
      using cycle_year [of n100 n4 3 n400] leapday s2 s3 n4 by simp_all
    then show ?thesis
      using s1 s2 s3 s4 leapday z
      by (intro fin [OF res])
        (simp_all add: valid_ymd_def days_in_month_def DAYS_IN_MONTH_def ymd2ord_def
          days_before_month_12)
  next
    case regular
    define y where "y = 400 * n400 + 100 * n100 + 4 * n4 + n1 + 1"
    define leapyear where "leapyear \<longleftrightarrow> n1 = 3 \<and> (n4 \<noteq> 24 \<or> n100 = 3)"
    obtain m d where md: "month_day leapyear r4 = (m, d)" by (cases "month_day leapyear r4")
    have res: "ord2ymd ordinal = (y, m, d)"
      using regular md by (simp add: unfold y_def leapyear_def)
    have cy: "days_before_year y = 146097 * n400 + 36524 * n100 + 1461 * n4 + 365 * n1"
      "is_leap y \<longleftrightarrow> leapyear"
      unfolding y_def leapyear_def using cycle_year [of n100 n4 n1 n400] regular s2 s3 s4 b4
      by simp_all
    have "1 \<le> m \<and> m \<le> 12 \<and> 1 \<le> d
      \<and> d \<le> (if m = 2 \<and> leapyear then 29 else DAYS_IN_MONTH ! nat m)
      \<and> DAYS_BEFORE_MONTH ! nat m + (if 2 < m \<and> leapyear then 1 else 0) + d = r4 + 1"
      using s4 md by (intro month_day_spec) simp_all
    moreover have "1 \<le> y" using s1 s2 s3 s4 by (simp add: y_def)
    ultimately show ?thesis
      using s1 s2 s3 s4 cy
      by (intro fin [OF res])
        (simp_all add: valid_ymd_def days_in_month_def ymd2ord_def days_before_month_def)
  qed
qed

subsection \<open>ISO text keeps the order of the dates\<close>

lemma day_of_year_bounds:
  assumes "valid_ymd (y, m, d)"
  shows "1 \<le> days_before_month y m + d"
    and "days_before_month y m + d \<le> 365 + (if is_leap y then 1 else 0)"
    and "d \<le> 31"
proof -
  have m: "1 \<le> m" "m \<le> 12" and d: "1 \<le> d" "d \<le> days_in_month y m"
    using assms by (simp_all add: valid_ymd_def)
  from month_cases [OF m] d
  show "1 \<le> days_before_month y m + d"
    and "days_before_month y m + d \<le> 365 + (if is_leap y then 1 else 0)"
    and "d \<le> 31"
    by (auto simp: days_before_month_def days_in_month_def DAYS_BEFORE_MONTH_def
        DAYS_IN_MONTH_def split: if_splits)
qed

lemma month_end_before_next:
  assumes "1 \<le> m" "m < m'" "m' \<le> 12"
  shows "days_before_month y m + days_in_month y m \<le> days_before_month y m'"
proof -
  have "m \<le> 12" "1 \<le> m'" using assms by simp_all
  from month_cases [OF assms(1) this(1)] month_cases [OF this(2) assms(3)] assms(2)
  show ?thesis
    by (elim disjE)
      (simp_all add: days_before_month_def days_in_month_def DAYS_BEFORE_MONTH_def
        DAYS_IN_MONTH_def)
qed

lemma ymd2ord_mono:
  assumes v: "valid_ymd (y, m, d)" "valid_ymd (y', m', d')"
    and le: "y < y' \<or> (y = y' \<and> (m < m' \<or> (m = m' \<and> d \<le> d')))"
  shows "ymd2ord y m d \<le> ymd2ord y' m' d'"
proof -
  consider "y < y'" | "y = y'" "m < m'" | "y = y'" "m = m'" "d \<le> d'" using le by blast
  then show ?thesis
  proof cases
    case 1
    have "ymd2ord y m d \<le> days_before_year (y + 1)"
      using day_of_year_bounds(2) [OF v(1)] by (simp add: ymd2ord_def days_before_year_Suc)
    also have "\<dots> \<le> days_before_year y'"
      using 1 by (intro days_before_year_mono) simp
    also have "\<dots> \<le> ymd2ord y' m' d'"
      using day_of_year_bounds(1) [OF v(2)] by (simp add: ymd2ord_def)
    finally show ?thesis .
  next
    case 2
    have "days_before_month y m + d \<le> days_before_month y m + days_in_month y m"
      using v(1) by (simp add: valid_ymd_def)
    also have "\<dots> \<le> days_before_month y m'"
      using 2 v by (intro month_end_before_next) (simp_all add: valid_ymd_def)
    finally show ?thesis using 2 v(2) by (simp add: ymd2ord_def valid_ymd_def)
  next
    case 3
    then show ?thesis by (simp add: ymd2ord_def)
  qed
qed

lemma ord2ymd_less:
  assumes "1 \<le> a" "a < b" and ra: "ord2ymd a = (y, m, d)" and rb: "ord2ymd b = (y', m', d')"
  shows "y < y' \<or> (y = y' \<and> (m < m' \<or> (m = m' \<and> d < d')))"
proof (rule ccontr)
  assume "\<not> ?thesis"
  then have "y' < y \<or> (y' = y \<and> (m' < m \<or> (m' = m \<and> d' \<le> d)))" by linarith
  moreover have "valid_ymd (y, m, d)" "ymd2ord y m d = a"
    using ord2ymd_ymd2ord [of a] assms(1) ra by simp_all
  moreover have "valid_ymd (y', m', d')" "ymd2ord y' m' d' = b"
    using ord2ymd_ymd2ord [of b] assms(1,2) rb by simp_all
  ultimately have "b \<le> a" using ymd2ord_mono [of y' m' d' y m d] by simp
  then show False using assms(2) by simp
qed

lemma ord2ymd_year_le:
  assumes "1 \<le> a" "a \<le> MAXORDINAL" "ord2ymd a = (y, m, d)"
  shows "y \<le> 9999"
proof (rule ccontr)
  assume "\<not> y \<le> 9999"
  then have "days_before_year 10000 \<le> days_before_year y"
    by (intro days_before_year_mono) simp
  moreover have "days_before_year 10000 = 3652059" by (simp add: days_before_year_def)
  moreover have "valid_ymd (y, m, d)" "ymd2ord y m d = a"
    using ord2ymd_ymd2ord [of a] assms(1,3) by simp_all
  ultimately have "3652059 < a"
    using day_of_year_bounds(1) [of y m d] by (simp add: ymd2ord_def)
  then show False using assms(2) by (simp add: MAXORDINAL_def)
qed

lemma isoformat_less:
  assumes "1 \<le> a" "a < b" "b \<le> MAXORDINAL"
  shows "isoformat a < isoformat b"
proof -
  obtain y m d where ra: "ord2ymd a = (y, m, d)" by (cases "ord2ymd a")
  obtain y' m' d' where rb: "ord2ymd b = (y', m', d')" by (cases "ord2ymd b")
  have va: "valid_ymd (y, m, d)" using ord2ymd_ymd2ord [of a] assms(1) ra by simp
  have vb: "valid_ymd (y', m', d')" using ord2ymd_ymd2ord [of b] assms(1,2) rb by simp
  have "y' \<le> 9999" using assms rb by (intro ord2ymd_year_le [of b]) simp_all
  moreover have "d' \<le> 31" using vb by (rule day_of_year_bounds(3))
  moreover have "0 \<le> y" "0 \<le> m" "0 \<le> d" "m' \<le> 12"
    using va vb by (simp_all add: valid_ymd_def)
  moreover have "y < y' \<or> (y = y' \<and> (m < m' \<or> (m = m' \<and> d < d')))"
    using assms(1,2) ra rb by (rule ord2ymd_less)
  ultimately have "iso_text (y, m, d) < iso_text (y', m', d')"
    by (intro iso_text_less) simp_all
  then show ?thesis by (simp add: isoformat_def iso_text_def ra rb)
qed

lemma isoformat_mono:
  assumes "1 \<le> a" "a \<le> b" "b \<le> MAXORDINAL"
  shows "isoformat a \<le> isoformat b"
  using isoformat_less [of a b] assms by (cases "a = b") (simp_all add: less_imp_le)

section \<open>Properties of the time-slot cell\<close>

subsection \<open>Comprehensions and consecutive pairs\<close>

lemma comprehension_Inr:
  "(\<And>x. x \<in> set xs \<Longrightarrow> f x = Inr (g x)) \<Longrightarrow> comprehension f xs = Inr (map g xs)"
  by (induction xs) simp_all

lemma comprehension_cases:
  assumes "\<And>x. x \<in> set xs \<Longrightarrow> f x = Inl e \<or> f x = Inr (g x)"
  shows "comprehension f xs = Inl e \<or> comprehension f xs = Inr (map g xs)"
  using assms
proof (induction xs)
  case Nil
  then show ?case by simp
next
  case (Cons x xs)
  then have "f x = Inl e \<or> f x = Inr (g x)" by simp
  moreover have "comprehension f xs = Inl e \<or> comprehension f xs = Inr (map g xs)"
    using Cons by simp
  ultimately show ?case by auto
qed

lemma comprehension_post:
  "comprehension (\<lambda>x. case f x of Inl e \<Rightarrow> Inl e | Inr y \<Rightarrow> Inr (g y)) xs
     = (case comprehension f xs of Inl e \<Rightarrow> Inl e | Inr ys \<Rightarrow> Inr (map g ys))"
  by (induction xs) (simp_all split: sum.splits)

lemma length_py_range: "length (py_range n) = nat n"
  by (simp add: py_range_def)

lemma length_consecutive: "length (consecutive es) = length es - 1"
  by (simp add: consecutive_def)

lemma consecutive_nth:
  "i < length es - 1 \<Longrightarrow> consecutive es ! i = (es ! i, es ! Suc i)"
  by (simp add: consecutive_def)

lemma consecutive_map: "consecutive (map f es) = map (\<lambda>w. (f (fst w), f (snd w))) (consecutive es)"
  by (simp add: consecutive_def)

lemma map_fst_consecutive: "map fst (consecutive es) = butlast es"
  by (rule nth_equalityI) (simp_all add: length_consecutive consecutive_nth nth_butlast)

lemma map_snd_consecutive: "map snd (consecutive es) = tl es"
  by (rule nth_equalityI) (simp_all add: length_consecutive consecutive_nth nth_tl)

lemma edges_iso:
  "edges start tdelta n =
     (case edge_dates start tdelta n of Inl e \<Rightarrow> Inl e | Inr ds \<Rightarrow> Inr (map isoformat ds))"
  unfolding edges_def edge_dates_def edge_def by (rule comprehension_post)

lemma slots_iso:
  "slots start end_dt n =
     (case slot_dates start end_dt n of Inl e \<Rightarrow> Inl e | Inr ds \<Rightarrow> Inr (map iso_slot ds))"
  by (simp add: slots_def slot_dates_def edges_iso consecutive_map iso_slot_def
      split: sum.splits)

subsection \<open>Rounding of the slot width\<close>

lemma divide_and_round_upper:
  assumes "0 < b"
  shows "2 * (b * divide_and_round a b) \<le> 2 * a + b"
proof -
  define q where "q = a div b"
  define r where "r = a mod b"
  have a: "a = b * q + r" by (simp add: q_def r_def)
  have r: "0 \<le> r" "r < b" using assms by (simp_all add: r_def)
  show ?thesis
    using assms r unfolding divide_and_round_def Let_def q_def [symmetric] r_def [symmetric] a
    by (auto simp: algebra_simps)
qed

lemma divide_and_round_lower:
  assumes "0 < b"
  shows "2 * a - b \<le> 2 * (b * divide_and_round a b)"
proof -
  define q where "q = a div b"
  define r where "r = a mod b"
  have a: "a = b * q + r" by (simp add: q_def r_def)
  have r: "0 \<le> r" "r < b" using assms by (simp_all add: r_def)
  show ?thesis
    using assms r unfolding divide_and_round_def Let_def q_def [symmetric] r_def [symmetric] a
    by (auto simp: algebra_simps)
qed

lemma divide_and_round_nonneg: "0 < b \<Longrightarrow> 0 \<le> a \<Longrightarrow> 0 \<le> divide_and_round a b"
  by (auto simp: divide_and_round_def Let_def pos_imp_zdiv_nonneg_iff intro: add_nonneg_nonneg)

lemma divide_and_round_nonpos:
  assumes "0 < b" "a \<le> 0"
  shows "divide_and_round a b \<le> 0"
proof (cases "a = 0")
  case True
  then show ?thesis using assms by (simp add: divide_and_round_def)
next
  case False
  then have "a < 0" using assms by simp
  then have "a div b < 0" using assms by (simp add: div_neg_pos_less0)
  then show ?thesis by (auto simp: divide_and_round_def Let_def)
qed

lemma abs_div_le_abs: "\<bar>a div b\<bar> \<le> \<bar>a :: int\<bar>"
proof -
  have pos: "\<bar>x div y\<bar> \<le> \<bar>x\<bar>" if "0 < y" for x y :: int
  proof (cases "0 \<le> x")
    case True
    have "x div y \<le> x div 1" using True that by (intro zdiv_mono2) simp_all
    moreover have "0 \<le> x div y" using True that by (simp add: pos_imp_zdiv_nonneg_iff)
    ultimately show ?thesis using True by simp
  next
    case False
    then have "x div 1 \<le> x div y" using that by (intro zdiv_mono2_neg) simp_all
    moreover have "x div y < 0" using False that by (simp add: div_neg_pos_less0)
    ultimately show ?thesis using False by simp
  qed
  consider "0 < b" | "b = 0" | "b < 0" by linarith
  then show ?thesis
  proof cases
    case 1
    then show ?thesis by (rule pos)
  next
    case 2
    then show ?thesis by simp
  next
    case 3
    then have "\<bar>(- a) div (- b)\<bar> \<le> \<bar>- a\<bar>" by (intro pos) simp
    then show ?thesis by simp
  qed
qed

lemma divide_and_round_abs: "\<bar>divide_and_round a b\<bar> \<le> \<bar>a\<bar> + 1"
  using abs_div_le_abs [of a b] by (auto simp: divide_and_round_def Let_def)

text \<open>
  \<open>n - 1\<close> steps of the rounded width stay within the period as long as
  \<open>n * (n - 1) \<le> 2 * period\<close> (in microseconds).
\<close>

lemma divide_and_round_span_upper:
  assumes "1 \<le> n" "n * (n - 1) \<le> 2 * a"
  shows "(n - 1) * divide_and_round a n \<le> a"
proof -
  let ?x = "divide_and_round a n"
  have "2 * (n * ?x) \<le> 2 * a + n" using assms by (intro divide_and_round_upper) simp
  then have "(n - 1) * (2 * (n * ?x)) \<le> (n - 1) * (2 * a + n)"
    using assms by (intro mult_left_mono) simp_all
  also have "\<dots> = 2 * n * a - 2 * a + n * (n - 1)" by (simp add: algebra_simps)
  also have "\<dots> \<le> 2 * n * a" using assms by simp
  finally have "(2 * n) * ((n - 1) * ?x) \<le> (2 * n) * a" by (simp add: algebra_simps)
  then show ?thesis using assms by simp
qed

lemma divide_and_round_span_lower:
  assumes "1 \<le> n" "n * (n - 1) \<le> - 2 * a"
  shows "a \<le> (n - 1) * divide_and_round a n"
proof -
  let ?x = "divide_and_round a n"
  have "2 * a - n \<le> 2 * (n * ?x)" using assms by (intro divide_and_round_lower) simp
  then have "(n - 1) * (2 * a - n) \<le> (n - 1) * (2 * (n * ?x))"
    using assms by (intro mult_left_mono) simp_all
  moreover have "(n - 1) * (2 * a - n) = 2 * n * a - 2 * a - n * (n - 1)"
    by (simp add: algebra_simps)
  moreover have "2 * n * a \<le> 2 * n * a - 2 * a - n * (n - 1)" using assms by simp
  ultimately have "(2 * n) * a \<le> (2 * n) * ((n - 1) * ?x)" by (simp add: algebra_simps)
  then show ?thesis using assms by simp
qed

lemma steps_forward:
  assumes "0 \<le> (tdelta::int)" "0 \<le> i" "i < n"
  shows "0 \<le> i * tdelta" "i * tdelta \<le> (n - 1) * tdelta"
  using assms by (simp_all add: mult_right_mono)

lemma steps_backward:
  assumes "(tdelta::int) \<le> 0" "0 \<le> i" "i < n"
  shows "i * tdelta \<le> 0" "(n - 1) * tdelta \<le> i * tdelta"
  using assms by (simp_all add: mult_nonneg_nonpos mult_right_mono_neg)

subsection \<open>When no step overflows\<close>

lemma valid_timedelta_span:
  "valid_datetime a \<Longrightarrow> valid_datetime b \<Longrightarrow> \<bar>d\<bar> \<le> \<bar>b - a\<bar> + 1 \<Longrightarrow> valid_timedelta d"
  by (simp add: valid_datetime_def valid_timedelta_def US_PER_DAY_def MAXORDINAL_def
      MAX_DELTA_DAYS_def) linarith

lemma valid_datetime_between:
  "valid_datetime a \<Longrightarrow> valid_datetime b \<Longrightarrow> a \<le> t \<Longrightarrow> t \<le> b \<Longrightarrow> valid_datetime t"
  by (simp add: valid_datetime_def)

lemma dt_sub_valid:
  "valid_datetime a \<Longrightarrow> valid_datetime b \<Longrightarrow> dt_sub a b = Inr (a - b)"
  using valid_timedelta_span [of b a "a - b"] by (simp add: dt_sub_def mk_timedelta_def)

lemma td_truediv_valid:
  assumes "valid_datetime a" "valid_datetime b" "n \<noteq> 0"
  shows "td_truediv (b - a) n = Inr (divide_and_round (b - a) n)"
  using valid_timedelta_span [OF assms(1,2) divide_and_round_abs] assms(3)
  by (simp add: td_truediv_def mk_timedelta_def)

lemma edge_date_cases:
  "edge_date start tdelta i = Inl OverflowError
   \<or> edge_date start tdelta i = Inr (date_of (start + i * tdelta))"
  by (simp add: edge_date_def td_rmul_def mk_timedelta_def dt_add_def)

lemma edge_date_Inr:
  "valid_timedelta (i * tdelta) \<Longrightarrow> valid_datetime (start + i * tdelta)
   \<Longrightarrow> edge_date start tdelta i = Inr (date_of (start + i * tdelta))"
  by (simp add: edge_date_def td_rmul_def mk_timedelta_def dt_add_def)

lemma edge_dates_cases:
  "edge_dates start tdelta n = Inl OverflowError
   \<or> edge_dates start tdelta n = Inr (map (\<lambda>i. date_of (start + i * tdelta)) (py_range n))"
  unfolding edge_dates_def by (rule comprehension_cases) (rule edge_date_cases)

lemma edge_dates_Inr:
  assumes "\<And>i. 0 \<le> i \<Longrightarrow> i < n
             \<Longrightarrow> valid_timedelta (i * tdelta) \<and> valid_datetime (start + i * tdelta)"
  shows "edge_dates start tdelta n = Inr (map (\<lambda>i. date_of (start + i * tdelta)) (py_range n))"
  unfolding edge_dates_def
proof (rule comprehension_Inr)
  fix x assume "x \<in> set (py_range n)"
  then have "0 \<le> x" "x < n" by (auto simp: py_range_def)
  then show "edge_date start tdelta x = Inr (date_of (start + x * tdelta))"
    using assms [of x] by (simp add: edge_date_Inr)
qed

lemma edge_dates_forward:
  assumes v: "valid_datetime start" "valid_datetime end_dt"
    and td: "0 \<le> tdelta" "(n - 1) * tdelta \<le> end_dt - start"
  shows "edge_dates start tdelta n = Inr (map (\<lambda>i. date_of (start + i * tdelta)) (py_range n))"
proof (rule edge_dates_Inr)
  fix i :: int assume i: "0 \<le> i" "i < n"
  note s = steps_forward [OF td(1) i]
  have "valid_timedelta (i * tdelta)"
    using s td(2) by (intro valid_timedelta_span [OF v]) simp_all
  moreover have "valid_datetime (start + i * tdelta)"
    using s td(2) by (intro valid_datetime_between [OF v]) simp_all
  ultimately show "valid_timedelta (i * tdelta) \<and> valid_datetime (start + i * tdelta)" ..
qed

lemma edge_dates_backward:
  assumes v: "valid_datetime start" "valid_datetime end_dt"
    and td: "tdelta \<le> 0" "end_dt - start \<le> (n - 1) * tdelta"
  shows "edge_dates start tdelta n = Inr (map (\<lambda>i. date_of (start + i * tdelta)) (py_range n))"
proof (rule edge_dates_Inr)
  fix i :: int assume i: "0 \<le> i" "i < n"
  note s = steps_backward [OF td(1) i]
  have "valid_timedelta (i * tdelta)"
    using s td(2) by (intro valid_timedelta_span [OF v(2,1)]) simp_all
  moreover have "valid_datetime (start + i * tdelta)"
    using s td(2) by (intro valid_datetime_between [OF v(2,1)]) simp_all
  ultimately show "valid_timedelta (i * tdelta) \<and> valid_datetime (start + i * tdelta)" ..
qed

lemma slot_dates_cases:
  assumes "valid_datetime start" "valid_datetime end_dt" "n \<noteq> 0"
  shows "slot_dates start end_dt n = Inl OverflowError
     \<or> slot_dates start end_dt n = Inr (consecutive (edge_list start end_dt n))"
  using assms edge_dates_cases [of start "divide_and_round (end_dt - start) n" n]
  by (auto simp: slot_dates_def dt_sub_valid td_truediv_valid edge_list_def)

lemma slot_dates_forward:
  assumes v: "valid_datetime start" "valid_datetime end_dt"
    and n: "1 \<le> n" and le: "start \<le> end_dt"
    and b: "n * (n - 1) \<le> 2 * (end_dt - start)"
  shows "slot_dates start end_dt n = Inr (consecutive (edge_list start end_dt n))"
proof -
  let ?td = "divide_and_round (end_dt - start) n"
  have "0 \<le> ?td" using n le by (intro divide_and_round_nonneg) simp_all
  moreover have "(n - 1) * ?td \<le> end_dt - start"
    using n b by (rule divide_and_round_span_upper)
  ultimately have "edge_dates start ?td n = Inr (edge_list start end_dt n)"
    unfolding edge_list_def by (rule edge_dates_forward [OF v])
  then show ?thesis
    using v n by (simp add: slot_dates_def dt_sub_valid td_truediv_valid)
qed

lemma slot_dates_backward:
  assumes v: "valid_datetime start" "valid_datetime end_dt"
    and n: "1 \<le> n" and le: "end_dt \<le> start"
    and b: "n * (n - 1) \<le> 2 * (start - end_dt)"
  shows "slot_dates start end_dt n = Inr (consecutive (edge_list start end_dt n))"
proof -
  let ?td = "divide_and_round (end_dt - start) n"
  have "?td \<le> 0" using n le by (intro divide_and_round_nonpos) simp_all
  moreover have "end_dt - start \<le> (n - 1) * ?td"
    using n b by (intro divide_and_round_span_lower) simp_all
  ultimately have "edge_dates start ?td n = Inr (edge_list start end_dt n)"
    unfolding edge_list_def by (rule edge_dates_backward [OF v])
  then show ?thesis
    using v n by (simp add: slot_dates_def dt_sub_valid td_truediv_valid)
qed

lemma divide_and_round_zero: "divide_and_round 0 n = 0"
  by (simp add: divide_and_round_def)

lemma slot_dates_same:
  assumes v: "valid_datetime start" and n: "1 \<le> n"
  shows "slot_dates start start n = Inr (consecutive (edge_list start start n))"
proof -
  have "edge_dates start 0 n = Inr (map (\<lambda>i. date_of (start + i * 0)) (py_range n))"
    by (rule edge_dates_forward [OF v v]) simp_all
  then show ?thesis
    using v n
    by (simp add: slot_dates_def dt_sub_valid td_truediv_def mk_timedelta_def
        valid_timedelta_def MAX_DELTA_DAYS_def US_PER_DAY_def divide_and_round_zero
        edge_list_def)
qed

lemma length_edge_list: "length (edge_list start end_dt n) = nat n"
  by (simp add: edge_list_def length_py_range)

lemma sorted_edge_list:
  assumes "start \<le> end_dt" "1 \<le> n"
  shows "sorted (edge_list start end_dt n)"
proof -
  let ?td = "divide_and_round (end_dt - start) n"
  have td: "0 \<le> ?td" using assms by (intro divide_and_round_nonneg) simp_all
  have "date_of (start + int i * ?td) \<le> date_of (start + int j * ?td)" if "i \<le> j" for i j
  proof -
    have "int i * ?td \<le> int j * ?td" using that td by (intro mult_right_mono) simp_all
    then show ?thesis unfolding date_of_def by (intro zdiv_mono1) (simp_all add: US_PER_DAY_def)
  qed
  then show ?thesis
    by (simp add: edge_list_def py_range_def sorted_iff_nth_mono)
qed

lemma consecutive_contiguous:
  "Suc i < length (consecutive es) \<Longrightarrow> snd (consecutive es ! i) = fst (consecutive es ! Suc i)"
  by (simp add: length_consecutive consecutive_nth)

lemma map_iso_slot_contiguous:
  assumes "\<And>i. Suc i < length ds \<Longrightarrow> snd (ds ! i) = fst (ds ! Suc i)"
  shows "Suc i < length (map iso_slot ds)
    \<Longrightarrow> snd (map iso_slot ds ! i) = fst (map iso_slot ds ! Suc i)"
  using assms [of i] by (simp add: iso_slot_def)

lemma slots_zero:
  assumes "valid_datetime start" "valid_datetime end_dt"
  shows "slots start end_dt 0 = Inl ZeroDivisionError"
  using assms by (simp add: slots_def dt_sub_valid td_truediv_def)

lemma slots_negative:
  assumes "valid_datetime start" "valid_datetime end_dt" "n < 0"
  shows "slots start end_dt n = Inr []"
  using assms
  by (simp add: slots_def dt_sub_valid td_truediv_valid edges_def py_range_def consecutive_def)

lemma slots_error_cases:
  assumes "valid_datetime start" "valid_datetime end_dt" "n \<noteq> 0"
  shows "slots start end_dt n = Inl OverflowError \<or> (\<exists>ws. slots start end_dt n = Inr ws)"
  using slot_dates_cases [OF assms] by (auto simp: slots_iso)

subsection \<open>The edges are dates in range\<close>

lemma date_of_valid:
  assumes "valid_datetime t"
  shows "1 \<le> date_of t" "date_of t \<le> MAXORDINAL"
proof -
  have "86400000000 \<le> t" "t \<le> 315537983999999999"
    using assms by (simp_all add: valid_datetime_def US_PER_DAY_def MAXORDINAL_def)
  then have "86400000000 div 86400000000 \<le> t div 86400000000"
    "t div 86400000000 \<le> 315537983999999999 div 86400000000"
    by (intro zdiv_mono1; simp)+
  then show "1 \<le> date_of t" "date_of t \<le> MAXORDINAL"
    by (simp_all add: date_of_def US_PER_DAY_def MAXORDINAL_def)
qed

lemma comprehension_results:
  "comprehension f xs = Inr ys \<Longrightarrow> y \<in> set ys \<Longrightarrow> \<exists>x\<in>set xs. f x = Inr y"
  by (induction xs arbitrary: ys) (auto split: sum.splits)

lemma edge_date_Inr_valid:
  assumes "edge_date start tdelta i = Inr d"
  shows "1 \<le> d \<and> d \<le> MAXORDINAL"
proof -
  have "valid_datetime (start + i * tdelta)" "d = date_of (start + i * tdelta)"
    using assms
    by (auto simp: edge_date_def td_rmul_def mk_timedelta_def dt_add_def split: if_splits)
  then show ?thesis using date_of_valid by simp
qed

lemma edge_dates_Inr_valid:
  assumes "edge_dates start tdelta n = Inr ds" "d \<in> set ds"
  shows "1 \<le> d \<and> d \<le> MAXORDINAL"
  using comprehension_results [OF assms [unfolded edge_dates_def]] edge_date_Inr_valid
  by blast

lemma slot_dates_Inr:
  assumes "valid_datetime start" "valid_datetime end_dt" "n \<noteq> 0"
    and "slot_dates start end_dt n = Inr ds"
  shows "ds = consecutive (edge_list start end_dt n)"
    and "\<forall>d\<in>set (edge_list start end_dt n). 1 \<le> d \<and> d \<le> MAXORDINAL"
proof -
  let ?td = "divide_and_round (end_dt - start) n"
  obtain es where es: "edge_dates start ?td n = Inr es" "ds = consecutive es"
    using assms by (auto simp: slot_dates_def dt_sub_valid td_truediv_valid split: sum.splits)
  then have "es = edge_list start end_dt n"
    using edge_dates_cases [of start ?td n] by (simp add: edge_list_def)
  then show "ds = consecutive (edge_list start end_dt n)"
    and "\<forall>d\<in>set (edge_list start end_dt n). 1 \<le> d \<and> d \<le> MAXORDINAL"
    using es edge_dates_Inr_valid [OF es(1)] by simp_all
qed

lemma sorted_map_isoformat:
  assumes "sorted ds" "\<forall>d\<in>set ds. 1 \<le> d \<and> d \<le> MAXORDINAL"
  shows "sorted (map isoformat ds)"
  using assms by (induction ds) (auto intro: isoformat_mono)

lemma map_fst_iso_slot: "map fst (map iso_slot ds) = map isoformat (map fst ds)"
  by (simp add: iso_slot_def comp_def)


subsection \<open>The two notebooks' own inputs\<close>

lemma ice_monitoring_slots:
  "slots (datetime_ymd 2022 9 1) (datetime_ymd 2023 4 30) 17 =
     Inr [(''2022-09-01'', ''2022-09-15''), (''2022-09-15'', ''2022-09-29''),
          (''2022-09-29'', ''2022-10-13''), (''2022-10-13'', ''2022-10-27''),
          (''2022-10-27'', ''2022-11-10''), (''2022-11-10'', ''2022-11-25''),
          (''2022-11-25'', ''2022-12-09''), (''2022-12-09'', ''2022-12-23''),
          (''2022-12-23'', ''2023-01-06''), (''2023-01-06'', ''2023-01-20''),
          (''2023-01-20'', ''2023-02-03''), (''2023-02-03'', ''2023-02-18''),
          (''2023-02-18'', ''2023-03-04''), (''2023-03-04'', ''2023-03-18''),
          (''2023-03-18'', ''2023-04-01''), (''2023-04-01'', ''2023-04-15'')]"
  by code_simp

lemma multiple_timestamps_slots:
  "slots (datetime_ymd 2019 1 1) (datetime_ymd 2019 12 31) 13 =
     Inr [(''2019-01-01'', ''2019-01-29''), (''2019-01-29'', ''2019-02-26''),
          (''2019-02-26'', ''2019-03-26''), (''2019-03-26'', ''2019-04-23''),
          (''2019-04-23'', ''2019-05-21''), (''2019-05-21'', ''2019-06-18''),
          (''2019-06-18'', ''2019-07-16''), (''2019-07-16'', ''2019-08-13''),
          (''2019-08-13'', ''2019-09-10''), (''2019-09-10'', ''2019-10-08''),
          (''2019-10-08'', ''2019-11-05''), (''2019-11-05'', ''2019-12-03'')]"
  by code_simp

lemma notebook_datetimes_ordered:
  "datetime_ymd 2019 1 1 < datetime_ymd 2019 12 31"
  "datetime_ymd 2022 9 1 < datetime_ymd 2023 4 30"
  "datetime_ymd 2022 9 1 < datetime_ymd 2022 9 2"
  by code_simp+

lemma notebook_datetimes_valid:
  "valid_datetime (datetime_ymd 2019 1 1)" "valid_datetime (datetime_ymd 2019 12 31)"
  "valid_datetime (datetime_ymd 2022 9 1)" "valid_datetime (datetime_ymd 2022 9 2)"
  "valid_datetime (datetime_ymd 2023 4 30)"
  by code_simp+

subsection \<open>How many slots\<close>

text \<open>
  Claim C1 says that for dates \<open>start < end\<close> and \<open>n_chunks \<ge> 1\<close> the partition returns
  exactly \<open>n_chunks\<close> windows. The cell builds \<open>n_chunks\<close> edges, hence \<open>n_chunks - 1\<close>
  windows: the call returns that many, and the one way it can fail is an OverflowError
  from an edge pushed past year 9999, which needs \<open>n_chunks * (n_chunks - 1)\<close> above
  twice the period in microseconds.
\<close>

theorem slots_count:
  assumes "valid_datetime start" "valid_datetime end_dt" "start < end_dt" "1 \<le> n_chunks"
  shows "(\<exists>ws. slots start end_dt n_chunks = Inr ws \<and> int (length ws) = n_chunks - 1)
       \<or> (slots start end_dt n_chunks = Inl OverflowError
            \<and> 2 * (end_dt - start) < n_chunks * (n_chunks - 1))"
proof (cases "n_chunks * (n_chunks - 1) \<le> 2 * (end_dt - start)")
  case True
  then show ?thesis
    using slot_dates_forward [of start end_dt n_chunks] assms
    by (simp add: slots_iso length_consecutive length_edge_list)
next
  case False
  then show ?thesis
    using slot_dates_cases [of start end_dt n_chunks] assms
    by (auto simp: slots_iso length_consecutive length_edge_list)
qed

text \<open>The theorem at the input of the multiple-timestamps example.\<close>

theorem slots_count_witness:
  "(\<exists>ws. slots (datetime_ymd 2019 1 1) (datetime_ymd 2019 12 31) 13 = Inr ws
          \<and> int (length ws) = 13 - 1)
   \<or> (slots (datetime_ymd 2019 1 1) (datetime_ymd 2019 12 31) 13 = Inl OverflowError
        \<and> 2 * (datetime_ymd 2019 12 31 - datetime_ymd 2019 1 1) < 13 * (13 - 1))"
  by (rule slots_count) (simp_all add: notebook_datetimes_valid notebook_datetimes_ordered)

text \<open>Claim C1 as stated fails there: 13 chunks give 12 windows.\<close>

theorem slots_count_counterexample:
  "datetime_ymd 2019 1 1 < datetime_ymd 2019 12 31 \<and> (1::int) \<le> 13
   \<and> map_sum id length (slots (datetime_ymd 2019 1 1) (datetime_ymd 2019 12 31) 13) = Inr 12"
  by (simp add: multiple_timestamps_slots notebook_datetimes_ordered)

subsection \<open>Coverage of the period\<close>

text \<open>
  Claim C2 says that the windows cover \<open>[start, end]\<close> exactly: the first starts at
  \<open>start\<close>, the last ends at \<open>end\<close>. On the ice-monitoring notebook's own input the
  first window starts at the start date, and the last one ends on 2023-04-15, fifteen
  days before the end date 2023-04-30: the last edge is \<open>start + (n_chunks - 1) * tdelta\<close>.
\<close>

theorem slots_stop_short_of_end:
  "\<exists>ws. slots (datetime_ymd 2022 9 1) (datetime_ymd 2023 4 30) 17 = Inr ws
     \<and> fst (hd ws) = isoformat (date_of (datetime_ymd 2022 9 1))
     \<and> snd (last ws) = ''2023-04-15''
     \<and> isoformat (date_of (datetime_ymd 2023 4 30)) = ''2023-04-30''"
proof -
  have "isoformat (date_of (datetime_ymd 2022 9 1)) = ''2022-09-01''" by code_simp
  moreover have "isoformat (date_of (datetime_ymd 2023 4 30)) = ''2023-04-30''" by code_simp
  ultimately show ?thesis by (simp add: ice_monitoring_slots)
qed

subsection \<open>Contiguity and order\<close>

text \<open>
  Claim C3: for dates \<open>start < end\<close> and \<open>n_chunks \<ge> 1\<close>, every window ends where the
  next one starts, and the windows are in ascending order of their start dates. The
  windows \<open>ws\<close> are the ISO texts of the date windows \<open>ds\<close>; the end of each is the
  start of the next, and the starts ascend, as texts in the order of Python strings and
  as dates. The order is not strict: two starts can be the same day. The call returns
  unless \<open>n_chunks\<close> is large enough for an edge to overflow.
\<close>

theorem slots_contiguous_ascending:
  assumes "valid_datetime start" "valid_datetime end_dt" "start < end_dt" "1 \<le> n_chunks"
  shows "(\<exists>ws ds. slots start end_dt n_chunks = Inr ws
            \<and> (\<forall>i. Suc i < length ws \<longrightarrow> snd (ws ! i) = fst (ws ! Suc i))
            \<and> sorted (map fst ws)
            \<and> slot_dates start end_dt n_chunks = Inr ds \<and> ws = map iso_slot ds
            \<and> sorted (map fst ds))
       \<or> (slots start end_dt n_chunks = Inl OverflowError
            \<and> 2 * (end_dt - start) < n_chunks * (n_chunks - 1))"
proof -
  let ?es = "edge_list start end_dt n_chunks"
  let ?ds = "consecutive ?es"
  have sorted: "sorted (butlast ?es)"
    using sorted_edge_list [of start end_dt n_chunks] assms by (simp add: sorted_butlast)
  have good: ?thesis if "slot_dates start end_dt n_chunks = Inr ?ds"
  proof -
    have "slots start end_dt n_chunks = Inr (map iso_slot ?ds)"
      using that by (simp add: slots_iso)
    moreover have "\<forall>i. Suc i < length (map iso_slot ?ds)
        \<longrightarrow> snd (map iso_slot ?ds ! i) = fst (map iso_slot ?ds ! Suc i)"
      using map_iso_slot_contiguous [of ?ds] consecutive_contiguous [of _ ?es]
      by blast
    moreover have "\<forall>d\<in>set (butlast ?es). 1 \<le> d \<and> d \<le> MAXORDINAL"
      using slot_dates_Inr(2) [OF assms(1,2) _ that] assms(4) by (auto dest: in_set_butlastD)
    then have "sorted (map fst (map iso_slot ?ds))"
      using sorted unfolding map_fst_iso_slot map_fst_consecutive
      by (intro sorted_map_isoformat)
    ultimately show ?thesis using that sorted by (auto simp: map_fst_consecutive)
  qed
  show ?thesis
  proof (cases "n_chunks * (n_chunks - 1) \<le> 2 * (end_dt - start)")
    case True
    then have "slot_dates start end_dt n_chunks = Inr ?ds"
      using assms by (intro slot_dates_forward) simp_all
    then show ?thesis by (rule good)
  next
    case False
    have "slot_dates start end_dt n_chunks = Inl OverflowError
        \<or> slot_dates start end_dt n_chunks = Inr ?ds"
      using assms by (intro slot_dates_cases) simp_all
    then show ?thesis
    proof
      assume "slot_dates start end_dt n_chunks = Inl OverflowError"
      then show ?thesis using False by (simp add: slots_iso)
    next
      assume "slot_dates start end_dt n_chunks = Inr ?ds"
      then show ?thesis by (rule good)
    qed
  qed
qed

text \<open>The theorem at the input of the ice-monitoring notebook.\<close>

theorem slots_contiguous_ascending_witness:
  "(\<exists>ws ds. slots (datetime_ymd 2022 9 1) (datetime_ymd 2023 4 30) 17 = Inr ws
            \<and> (\<forall>i. Suc i < length ws \<longrightarrow> snd (ws ! i) = fst (ws ! Suc i))
            \<and> sorted (map fst ws)
            \<and> slot_dates (datetime_ymd 2022 9 1) (datetime_ymd 2023 4 30) 17 = Inr ds
            \<and> ws = map iso_slot ds
            \<and> sorted (map fst ds))
       \<or> (slots (datetime_ymd 2022 9 1) (datetime_ymd 2023 4 30) 17 = Inl OverflowError
            \<and> 2 * (datetime_ymd 2023 4 30 - datetime_ymd 2022 9 1) < 17 * (17 - 1))"
  by (rule slots_contiguous_ascending)
    (simp_all add: notebook_datetimes_valid notebook_datetimes_ordered)

subsection \<open>No validation of the arguments\<close>

text \<open>
  Claim C4 says that the partition fails with InvalidRangeError exactly when
  \<open>end \<le> start\<close> or \<open>n_chunks < 1\<close>. The cell checks nothing. For all datetimes it
  raises ZeroDivisionError exactly when \<open>n_chunks = 0\<close> and never InvalidRangeError; a
  negative \<open>n_chunks\<close> gives the empty list; and with \<open>end \<le> start\<close> and
  \<open>n_chunks \<ge> 1\<close> it returns \<open>n_chunks - 1\<close> windows (when \<open>end = start\<close>, or
  \<open>n_chunks * (n_chunks - 1)\<close> is at most twice the period in microseconds, so that no
  edge leaves the range of \<open>datetime\<close>).
\<close>

theorem slots_no_validation:
  assumes "valid_datetime start" "valid_datetime end_dt"
  shows "(slots start end_dt n_chunks = Inl ZeroDivisionError \<longleftrightarrow> n_chunks = 0)
       \<and> slots start end_dt n_chunks \<noteq> Inl InvalidRangeError
       \<and> (n_chunks < 0 \<longrightarrow> slots start end_dt n_chunks = Inr [])
       \<and> (end_dt \<le> start \<and> 1 \<le> n_chunks
            \<and> (end_dt = start \<or> n_chunks * (n_chunks - 1) \<le> 2 * (start - end_dt))
            \<longrightarrow> (\<exists>ws. slots start end_dt n_chunks = Inr ws \<and> int (length ws) = n_chunks - 1))"
proof (intro conjI impI)
  have other: "slots start end_dt n_chunks = Inl OverflowError
      \<or> (\<exists>ws. slots start end_dt n_chunks = Inr ws)" if "n_chunks \<noteq> 0"
    using assms that by (rule slots_error_cases)
  show "slots start end_dt n_chunks = Inl ZeroDivisionError \<longleftrightarrow> n_chunks = 0"
  proof (cases "n_chunks = 0")
    case True
    then show ?thesis using slots_zero [OF assms] by simp
  next
    case False
    then show ?thesis using other by auto
  qed
  show "slots start end_dt n_chunks \<noteq> Inl InvalidRangeError"
  proof (cases "n_chunks = 0")
    case True
    then show ?thesis using slots_zero [OF assms] by simp
  next
    case False
    then show ?thesis using other by auto
  qed
  show "slots start end_dt n_chunks = Inr []" if "n_chunks < 0"
    using that by (rule slots_negative [OF assms])
  show "\<exists>ws. slots start end_dt n_chunks = Inr ws \<and> int (length ws) = n_chunks - 1"
    if h: "end_dt \<le> start \<and> 1 \<le> n_chunks
      \<and> (end_dt = start \<or> n_chunks * (n_chunks - 1) \<le> 2 * (start - end_dt))"
  proof -
    have "slot_dates start end_dt n_chunks = Inr (consecutive (edge_list start end_dt n_chunks))"
    proof (cases "end_dt = start")
      case True
      then show ?thesis using slot_dates_same [OF assms(1), of n_chunks] h by simp
    next
      case False
      then show ?thesis using h by (intro slot_dates_backward [OF assms]) simp_all
    qed
    then show ?thesis
      using h by (auto simp: slots_iso length_consecutive length_edge_list)
  qed
qed

text \<open>
  The theorem with the end one day before the start, for 0, -4 and 3 chunks, and with the
  end equal to the start, for 2 chunks.
\<close>

theorem slots_no_validation_witness:
  "slots (datetime_ymd 2022 9 2) (datetime_ymd 2022 9 1) 0 = Inl ZeroDivisionError
   \<and> slots (datetime_ymd 2022 9 2) (datetime_ymd 2022 9 1) (- 4) = Inr []
   \<and> (\<exists>ws. slots (datetime_ymd 2022 9 2) (datetime_ymd 2022 9 1) 3 = Inr ws
          \<and> int (length ws) = 3 - 1)
   \<and> (\<exists>ws. slots (datetime_ymd 2022 9 1) (datetime_ymd 2022 9 1) 2 = Inr ws
          \<and> int (length ws) = 2 - 1)"
proof -
  note v = notebook_datetimes_valid(4,3)
  note w = notebook_datetimes_valid(3,3)
  have b: "datetime_ymd 2022 9 1 \<le> datetime_ymd 2022 9 2 \<and> (1::int) \<le> 3
    \<and> 3 * (3 - 1) \<le> 2 * (datetime_ymd 2022 9 2 - datetime_ymd 2022 9 1)"
    by code_simp
  show ?thesis
    using slots_no_validation [OF v, of 0] slots_no_validation [OF v, of "- 4"]
      slots_no_validation [OF v, of 3] slots_no_validation [OF w, of 2] b
    by simp
qed

text \<open>
  Claim C4 as stated fails with the end equal to the start: the precondition is violated
  and a window is returned.
\<close>

theorem slots_no_validation_counterexample:
  "datetime_ymd 2022 9 1 \<le> datetime_ymd 2022 9 1
   \<and> slots (datetime_ymd 2022 9 1) (datetime_ymd 2022 9 1) 2
       = Inr [(''2022-09-01'', ''2022-09-01'')]"
  by code_simp

subsection \<open>Zero-length windows\<close>

text \<open>
  Claim C5: there is a valid input for which two consecutive edges fall on the same
  calendar date, and the cell neither rejects it nor drops the duplicate. One day split
  with \<open>n_chunks = 3\<close> has edges at 00:00, 08:00 and 16:00 of the same day: the call
  returns both windows, each from 2022-09-01 to 2022-09-01.
\<close>

theorem zero_length_window:
  "datetime_ymd 2022 9 1 < datetime_ymd 2022 9 2 \<and> (1::int) \<le> 3
   \<and> slots (datetime_ymd 2022 9 1) (datetime_ymd 2022 9 2) 3
       = Inr [(''2022-09-01'', ''2022-09-01''), (''2022-09-01'', ''2022-09-01'')]"
  by code_simp

subsection \<open>A single chunk\<close>

text \<open>
  Claim C9: with \<open>n_chunks = 1\<close> the cell produces no window at all, since one edge is
  generated and there is no pair of consecutive edges. It holds for all datetimes,
  whichever comes first.
\<close>

theorem slots_single_chunk_empty:
  assumes "valid_datetime start" "valid_datetime end_dt"
  shows "slots start end_dt 1 = Inr []"
proof -
  have "slot_dates start end_dt 1 = Inr (consecutive (edge_list start end_dt 1))"
  proof (cases "start \<le> end_dt")
    case True
    then show ?thesis using assms by (intro slot_dates_forward) simp_all
  next
    case False
    then show ?thesis using assms by (intro slot_dates_backward) simp_all
  qed
  moreover have "consecutive (edge_list start end_dt 1) = []"
    using length_consecutive [of "edge_list start end_dt 1"] by (simp add: length_edge_list)
  ultimately show ?thesis by (simp add: slots_iso)
qed

theorem slots_single_chunk_empty_witness:
  "datetime_ymd 2022 9 1 < datetime_ymd 2023 4 30
   \<and> slots (datetime_ymd 2022 9 1) (datetime_ymd 2023 4 30) 1 = Inr []"
  using slots_single_chunk_empty [OF notebook_datetimes_valid(3,5)]
  by (simp add: notebook_datetimes_ordered)

section \<open>Properties of the area reduction\<close>

lemma sum_binary:
  assumes "list_all (\<lambda>v. v = 0 \<or> v = sentinel) vs"
  shows "sum_list (map unat vs) = length (filter (\<lambda>v. v = sentinel) vs)"
  using assms by (induction vs) (auto simp: sentinel_def)

lemma count_ice_pixels_sum:
  "4 < bands img \<Longrightarrow> count_ice_pixels img = Inr (sum_list (map unat (band_values img 4)))"
  by (simp add: count_ice_pixels_def band_slice_def np_sum_def band_values_def)

lemma count_ice_pixels_error:
  "bands img \<le> 4 \<Longrightarrow> count_ice_pixels img = Inl IndexError"
  by (simp add: count_ice_pixels_def band_slice_def)

lemma band_values_cong:
  assumes "height other = height img" "width other = width img"
    and "\<And>r c. r < height img \<Longrightarrow> c < width img \<Longrightarrow> sample other r c b = sample img r c b"
  shows "band_values other b = band_values img b"
  using assms by (auto simp: band_values_def intro!: arg_cong [where f = concat])

lemma ice_area_binary:
  assumes "4 < bands img" "binary_mask img"
  shows "ice_area img = Inr (of_nat (sentinel_pixels img * (20 * 20)) / 1000000)"
  using assms
  by (simp add: ice_area_def count_ice_pixels_sum sum_binary binary_mask_def sentinel_pixels_def
      resolution_s1_def)

lemma area_loop_map:
  assumes "\<And>img. img \<in> set mask_data \<Longrightarrow> ice_area img = Inr (f img)"
  shows "area_loop mask_data acc = Inr (acc @ map f mask_data)"
  using assms by (induction mask_data arbitrary: acc) simp_all

lemma filter_less_upt: "k \<le> n \<Longrightarrow> filter (\<lambda>c. c < k) [0..<n] = [0..<k]"
proof (induction n)
  case 0
  then show ?case by simp
next
  case (Suc n)
  show ?case
  proof (cases "k = Suc n")
    case True
    then show ?thesis by simp
  next
    case False
    then show ?thesis using Suc by simp
  qed
qed

lemma band_values_synthetic_grid:
  "band_values (synthetic_grid k) 4 = map (\<lambda>c. if c < k then sentinel else 0) [0..<1600]"
  by (simp add: band_values_def synthetic_grid_def)

lemma synthetic_grid_facts:
  assumes "k \<le> 1600"
  shows "bands (synthetic_grid k) = 5" "binary_mask (synthetic_grid k)"
    "sentinel_pixels (synthetic_grid k) = k"
proof -
  show "bands (synthetic_grid k) = 5" by (simp add: synthetic_grid_def)
  show "binary_mask (synthetic_grid k)"
    by (auto simp: binary_mask_def band_values_synthetic_grid list_all_iff)
  have "filter (\<lambda>v. v = sentinel) (map (\<lambda>c. if c < k then sentinel else 0) [0..<1600])
      = map (\<lambda>c. if c < k then sentinel else 0) (filter (\<lambda>c. c < k) [0..<1600])"
    by (simp add: filter_map comp_def sentinel_def cong: filter_cong)
  then show "sentinel_pixels (synthetic_grid k) = k"
    using assms by (simp add: sentinel_pixels_def band_values_synthetic_grid filter_less_upt)
qed

subsection \<open>Counting by summing\<close>

text \<open>
  Claim C7 says that for every raster the reduction returns the number of pixels of the
  classification band equal to the sentinel 1, times the ground area of a pixel
  (20 m by 20 m), in square kilometres, other values contributing nothing. The code sums
  the samples of band 4. For a raster of at least five bands whose band 4 holds only 0
  and 1, as the mask evalscript writes it, the sum is that count and the claim holds.
\<close>

theorem ice_area_binary_mask:
  assumes "4 < bands img" "binary_mask img"
  shows "count_ice_pixels img = Inr (sentinel_pixels img)
       \<and> ice_area img = Inr (of_nat (sentinel_pixels img * (20 * 20)) / 1000000)"
  using assms
  by (simp add: ice_area_binary count_ice_pixels_sum sum_binary binary_mask_def
      sentinel_pixels_def)

text \<open>The theorem at a synthetic grid with 300 marked pixels.\<close>

theorem ice_area_binary_mask_witness:
  "4 < bands (synthetic_grid 300) \<and> binary_mask (synthetic_grid 300)
   \<and> count_ice_pixels (synthetic_grid 300) = Inr 300
   \<and> ice_area (synthetic_grid 300) = Inr (of_nat (300 * (20 * 20)) / 1000000)"
  using ice_area_binary_mask [of "synthetic_grid 300"] synthetic_grid_facts [of 300]
  by simp

text \<open>
  Claim C7 as stated fails at a pixel whose band 4 is 2: no pixel equals the sentinel,
  and the area is \<open>2 * 400 / 1000000\<close>, not 0.
\<close>

theorem ice_area_counterexample:
  "4 < bands bright_pixel \<and> sentinel_pixels bright_pixel = 0
   \<and> ice_area bright_pixel = Inr (1 / 1250)"
  by (simp add: ice_area_def count_ice_pixels_def band_slice_def np_sum_def bright_pixel_def
      resolution_s1_def sentinel_pixels_def band_values_def sentinel_def)

subsection \<open>Band index 4\<close>

text \<open>
  Claim C10: \<open>count_ice_pixels\<close> reads band index 4 and no other band; it returns a
  count exactly when the raster has at least five bands, and raises (an IndexError) for
  every raster with fewer. Reading no other band is stated as: a raster of the same
  shape that agrees on band 4 gives the same result, whatever its other bands hold.
\<close>

theorem count_ice_pixels_band_4:
  "((\<exists>n. count_ice_pixels img = Inr n) \<longleftrightarrow> 5 \<le> bands img)
   \<and> (bands img < 5 \<longrightarrow> count_ice_pixels img = Inl IndexError)
   \<and> (\<forall>other. height other = height img \<and> width other = width img \<and> bands other = bands img
         \<and> (\<forall>r c. r < height img \<and> c < width img \<longrightarrow> sample other r c 4 = sample img r c 4)
       \<longrightarrow> count_ice_pixels other = count_ice_pixels img)"
proof (intro conjI allI impI)
  show "(\<exists>n. count_ice_pixels img = Inr n) \<longleftrightarrow> 5 \<le> bands img"
    using count_ice_pixels_sum [of img] count_ice_pixels_error [of img]
    by (cases "4 < bands img") auto
  show "count_ice_pixels img = Inl IndexError" if "bands img < 5"
    using that by (simp add: count_ice_pixels_error)
  show "count_ice_pixels other = count_ice_pixels img"
    if h: "height other = height img \<and> width other = width img \<and> bands other = bands img
      \<and> (\<forall>r c. r < height img \<and> c < width img \<longrightarrow> sample other r c 4 = sample img r c 4)"
    for other
  proof (cases "4 < bands img")
    case True
    have "band_values other 4 = band_values img 4"
      using h by (intro band_values_cong) simp_all
    then show ?thesis using True h by (simp add: count_ice_pixels_sum)
  next
    case False
    then show ?thesis using h by (simp add: count_ice_pixels_error)
  qed
qed

text \<open>The theorem at a three-band pixel, and at a five-band pixel and its repainted copy.\<close>

theorem count_ice_pixels_band_4_witness:
  "bands rgb_pixel < 5 \<and> count_ice_pixels rgb_pixel = Inl IndexError
   \<and> 5 \<le> bands bright_pixel \<and> count_ice_pixels bright_pixel = Inr 2
   \<and> count_ice_pixels repainted_pixel = count_ice_pixels bright_pixel"
proof -
  have a: "bands rgb_pixel < 5" by (simp add: rgb_pixel_def)
  have b: "height repainted_pixel = height bright_pixel \<and> width repainted_pixel = width bright_pixel
      \<and> bands repainted_pixel = bands bright_pixel
      \<and> (\<forall>r c. r < height bright_pixel \<and> c < width bright_pixel
            \<longrightarrow> sample repainted_pixel r c 4 = sample bright_pixel r c 4)"
    by (simp add: repainted_pixel_def bright_pixel_def)
  have c: "count_ice_pixels bright_pixel = Inr 2" by code_simp
  have d: "5 \<le> bands bright_pixel" by (simp add: bright_pixel_def)
  show ?thesis
    using count_ice_pixels_band_4 [of rgb_pixel] count_ice_pixels_band_4 [of bright_pixel] a b c d
    by blast
qed

subsection \<open>The end-to-end scenario\<close>

text \<open>
  Claim C6: partitioning 2022-09-01 to 2023-04-30 with \<open>n_chunks = 17\<close> yields 16
  windows, and reducing 16 synthetic mask grids, grid \<open>i\<close> with \<open>i * 100\<close> pixels equal
  to the sentinel, at 20 m by 20 m, yields the series whose value at index \<open>i\<close> is
  \<open>i * 100 * 400 / 1000000\<close> square kilometres, strictly increasing with \<open>i\<close>. The
  reduction sums band 4, so this holds when the grids are masks as the evalscript writes
  them: five bands at least, and band 4 holding only 0 or 1.
\<close>

theorem end_to_end_scenario:
  assumes len: "length mask_data = 16"
    and grids: "\<forall>i<16. 4 < bands (mask_data ! i) \<and> binary_mask (mask_data ! i)
                  \<and> sentinel_pixels (mask_data ! i) = i * 100"
  shows "(\<exists>ws. slots (datetime_ymd 2022 9 1) (datetime_ymd 2023 4 30) 17 = Inr ws
            \<and> length ws = 16)
       \<and> (\<exists>series. area_covered_ice mask_data = Inr series \<and> length series = 16
            \<and> (\<forall>i<16. series ! i = of_nat (i * 100 * 400) / 1000000)
            \<and> (\<forall>i j. i < j \<and> j < 16 \<longrightarrow> series ! i < series ! j))"
proof
  show "\<exists>ws. slots (datetime_ymd 2022 9 1) (datetime_ymd 2023 4 30) 17 = Inr ws \<and> length ws = 16"
    by (simp add: ice_monitoring_slots)
next
  define g :: "raster \<Rightarrow> rat"
    where "g img = of_nat (sentinel_pixels img * (20 * 20)) / 1000000" for img
  have "ice_area img = Inr (g img)" if "img \<in> set mask_data" for img
  proof -
    from that obtain i where "i < 16" "img = mask_data ! i"
      using len by (auto simp: in_set_conv_nth)
    then show ?thesis using grids by (simp add: g_def ice_area_binary)
  qed
  then have series: "area_covered_ice mask_data = Inr (map g mask_data)"
    by (simp add: area_covered_ice_def area_loop_map)
  have at: "map g mask_data ! i = of_nat (i * 100 * 400) / 1000000" if "i < 16" for i
    using that len grids by (simp add: g_def)
  have "map g mask_data ! i < map g mask_data ! j" if "i < j \<and> j < 16" for i j
  proof -
    have "i < 16" "j < 16" using that by simp_all
    then show ?thesis using that by (simp add: at divide_strict_right_mono)
  qed
  then show "\<exists>series. area_covered_ice mask_data = Inr series \<and> length series = 16
            \<and> (\<forall>i<16. series ! i = of_nat (i * 100 * 400) / 1000000)
            \<and> (\<forall>i j. i < j \<and> j < 16 \<longrightarrow> series ! i < series ! j)"
    using series len at by auto
qed

lemma synthetic_mask_data_grids:
  "length synthetic_mask_data = 16"
  "\<forall>i<16. 4 < bands (synthetic_mask_data ! i) \<and> binary_mask (synthetic_mask_data ! i)
     \<and> sentinel_pixels (synthetic_mask_data ! i) = i * 100"
proof -
  show "length synthetic_mask_data = 16" by (simp add: synthetic_mask_data_def)
  show "\<forall>i<16. 4 < bands (synthetic_mask_data ! i) \<and> binary_mask (synthetic_mask_data ! i)
     \<and> sentinel_pixels (synthetic_mask_data ! i) = i * 100"
  proof (intro allI impI)
    fix i :: nat assume "i < 16"
    then have "i * 100 \<le> 1600" by simp
    then show "4 < bands (synthetic_mask_data ! i) \<and> binary_mask (synthetic_mask_data ! i)
     \<and> sentinel_pixels (synthetic_mask_data ! i) = i * 100"
      using \<open>i < 16\<close> by (simp add: synthetic_mask_data_def synthetic_grid_facts)
  qed
qed

text \<open>The theorem at the sixteen synthetic grids.\<close>

theorem end_to_end_scenario_witness:
  "length synthetic_mask_data = 16
   \<and> (\<exists>ws. slots (datetime_ymd 2022 9 1) (datetime_ymd 2023 4 30) 17 = Inr ws
            \<and> length ws = 16)
   \<and> (\<exists>series. area_covered_ice synthetic_mask_data = Inr series \<and> length series = 16
            \<and> series ! 0 = 0 \<and> series ! 1 = 1 / 25 \<and> series ! 15 = 3 / 5
            \<and> series ! 1 < series ! 15)"
proof -
  note s = end_to_end_scenario [OF synthetic_mask_data_grids]
  from s obtain series where series: "area_covered_ice synthetic_mask_data = Inr series"
    "length series = 16" "\<forall>i<16. series ! i = of_nat (i * 100 * 400) / 1000000"
    by blast
  have "series ! 0 = 0" "series ! 1 = 1 / 25" "series ! 15 = 3 / 5"
    using series(3) [rule_format, of 0] series(3) [rule_format, of 1]
      series(3) [rule_format, of 15]
    by simp_all
  then show ?thesis using s series(1,2) synthetic_mask_data_grids(1) by simp
qed

lemma synthetic_mask_data_list:
  "synthetic_mask_data =
     [synthetic_grid 0, synthetic_grid 100, synthetic_grid 200, synthetic_grid 300,
      synthetic_grid 400, synthetic_grid 500, synthetic_grid 600, synthetic_grid 700,
      synthetic_grid 800, synthetic_grid 900, synthetic_grid 1000, synthetic_grid 1100,
      synthetic_grid 1200, synthetic_grid 1300, synthetic_grid 1400, synthetic_grid 1500]"
proof -
  have "[0..<16] = [0, 1, 2, 3, 4, 5, 6, 7, 8, 9, 10, 11, 12, 13, 14, 15 :: nat]"
    by code_simp
  then show ?thesis by (simp add: synthetic_mask_data_def)
qed

lemma ice_area_synthetic_grid:
  "k \<le> 1600 \<Longrightarrow> ice_area (synthetic_grid k) = Inr (of_nat (k * (20 * 20)) / 1000000)"
  using ice_area_binary [of "synthetic_grid k"] by (simp add: synthetic_grid_facts)

lemma bright_pixel_facts:
  "bands bright_pixel = 5" "sentinel_pixels bright_pixel = 0"
  "ice_area bright_pixel = Inr (1 / 1250)"
  by (simp_all add: ice_area_def count_ice_pixels_def band_slice_def np_sum_def bright_pixel_def
      resolution_s1_def sentinel_pixels_def band_values_def sentinel_def)

text \<open>
  Claim C6 as stated fails when a pixel that is not a sentinel pixel is not 0 either: in
  these sixteen five-band grids, grid \<open>i\<close> has \<open>i * 100\<close> pixels equal to the
  sentinel, and the series starts with \<open>2 * 400 / 1000000\<close>, not with 0.
\<close>

theorem end_to_end_scenario_counterexample:
  "length nonbinary_mask_data = 16
   \<and> map bands nonbinary_mask_data = [5, 5, 5, 5, 5, 5, 5, 5, 5, 5, 5, 5, 5, 5, 5, 5]
   \<and> map sentinel_pixels nonbinary_mask_data
       = [0, 100, 200, 300, 400, 500, 600, 700, 800, 900, 1000, 1100, 1200, 1300, 1400, 1500]
   \<and> area_covered_ice nonbinary_mask_data
       = Inr [1 / 1250, 1 / 25, 2 / 25, 3 / 25, 4 / 25, 1 / 5, 6 / 25, 7 / 25, 8 / 25,
              9 / 25, 2 / 5, 11 / 25, 12 / 25, 13 / 25, 14 / 25, 3 / 5]"
  by (simp add: nonbinary_mask_data_def synthetic_mask_data_list bright_pixel_facts
      synthetic_grid_facts ice_area_synthetic_grid area_covered_ice_def)

end
